theory Spec2Isabelle
  imports Main "HOL-Library.Word"
begin

unbundle bit_operations_syntax

section \<open>Machine types and outcomes\<close>

text \<open>
  The C sources use \<^verbatim>\<open>uint8_t\<close>, \<^verbatim>\<open>uint16_t\<close>, \<^verbatim>\<open>uint32_t\<close>, \<^verbatim>\<open>uint64_t\<close>
  and \<^verbatim>\<open>size_t\<close>. They are modelled as words of that width, so that every
  addition, subtraction and decrement wraps as in C. \<^verbatim>\<open>size_t\<close> is taken to be
  64 bits wide (the DRM/KMS target is 64-bit Linux).
\<close>

type_synonym u8 = "8 word"
type_synonym u16 = "16 word"
type_synonym u32 = "32 word"
type_synonym u64 = "64 word"

text \<open>
  How a call can end other than by returning: \<open>Fatal\<close> is the process being
  terminated by \<^verbatim>\<open>FATAL_ERR\<close> or a failed \<^verbatim>\<open>assert\<close>; \<open>OutOfBounds\<close> is a read or
  write outside an allocation (undefined behaviour in C, the model stops there);
  \<open>DivByZero\<close> is an integer division by zero. A call that never returns has the
  value \<open>None\<close> in the functions that return an \<open>option\<close>.
\<close>

datatype abort = Fatal | OutOfBounds | DivByZero

definition run_bind ::
  "(abort + 'a) option \<Rightarrow> ('a \<Rightarrow> (abort + 'b) option) \<Rightarrow> (abort + 'b) option" where
  "run_bind m f =
     (case m of
        None \<Rightarrow> None
      | Some (Inl e) \<Rightarrow> Some (Inl e)
      | Some (Inr a) \<Rightarrow> f a)"

section \<open>Canvas and rasterizer\<close>

text \<open>The structs of the canvas header: a colour, a rectangle, a circle, a canvas.\<close>

record color =
  color_r :: u8
  color_g :: u8
  color_b :: u8

record rect =
  rect_x :: u16
  rect_y :: u16
  rect_w :: u16
  rect_h :: u16
  rect_c :: color

record circle =
  circle_x :: u16
  circle_y :: u16
  circle_r :: u16
  circle_c :: color

record canvas =
  width :: u16
  height :: u16
  stride :: u32
  buffer :: "u8 list"

text \<open>\<^verbatim>\<open>canvas_buffer_size\<close>: the product of the three fields, each cast to 64 bits.\<close>

definition canvas_buffer_size :: "canvas \<Rightarrow> u64" where
  "canvas_buffer_size c = ucast (width c) * ucast (height c) * ucast (stride c)"

text \<open>
  \<^verbatim>\<open>canvas_init_bgra\<close>. The two \<^verbatim>\<open>malloc\<close> calls are the environment's: \<open>ret_ok\<close>
  says whether the struct was allocated, \<open>fresh\<close> is \<open>None\<close> when the pixel
  buffer was not, and otherwise gives the (uninitialised) contents of the new block.
\<close>

definition canvas_init_bgra :: "bool \<Rightarrow> (nat \<Rightarrow> u8) option \<Rightarrow> u16 \<Rightarrow> u16 \<Rightarrow> canvas option" where
  "canvas_init_bgra ret_ok fresh w h =
     (if \<not> ret_ok then None
      else let ret = \<lparr>width = w, height = h, stride = 4, buffer = []\<rparr>
           in case fresh of
                None \<Rightarrow> None
              | Some f \<Rightarrow> Some (ret\<lparr>buffer := map f [0..<unat (canvas_buffer_size ret)]\<rparr>))"

text \<open>
  \<^verbatim>\<open>memcpy(&dst[off], src, sizeof src)\<close> into a buffer of known length: the
  bytes \<open>off ..< off + length src\<close> are replaced; a copy that does not fit is
  \<open>OutOfBounds\<close>.
\<close>

definition memcpy :: "u8 list \<Rightarrow> nat \<Rightarrow> u8 list \<Rightarrow> abort + u8 list" where
  "memcpy dst off src =
     (if off + length src \<le> length dst
      then Inr (take off dst @ src @ drop (off + length src) dst)
      else Inl OutOfBounds)"

text \<open>
  \<^verbatim>\<open>draw_point\<close>: \<open>mapped\<close> is the local array \<^verbatim>\<open>{ color.b, color.g, color.r, 0xFF }\<close>,
  \<open>pixel_idx\<close> and \<open>byte_idx\<close> are the two \<^verbatim>\<open>size_t\<close> locals.
\<close>

definition mapped :: "color \<Rightarrow> u8 list" where
  "mapped col = [color_b col, color_g col, color_r col, 0xFF]"

definition pixel_idx :: "canvas \<Rightarrow> u16 \<Rightarrow> u16 \<Rightarrow> u64" where
  "pixel_idx c x y = ucast y * ucast (width c) + ucast x"

definition byte_idx :: "canvas \<Rightarrow> u16 \<Rightarrow> u16 \<Rightarrow> u64" where
  "byte_idx c x y = pixel_idx c x y * ucast (stride c)"

definition draw_point :: "canvas \<Rightarrow> u16 \<Rightarrow> u16 \<Rightarrow> color \<Rightarrow> abort + canvas" where
  "draw_point c x y col =
     (case memcpy (buffer c) (unat (byte_idx c x y)) (mapped col) of
        Inl e \<Rightarrow> Inl e
      | Inr b \<Rightarrow> Inr (c\<lparr>buffer := b\<rparr>))"


text \<open>Two canvases of the same dimensions, stride and buffer length.\<close>

definition same_shape :: "canvas \<Rightarrow> canvas \<Rightarrow> bool" where
  "same_shape c c' \<longleftrightarrow>
     width c' = width c \<and> height c' = height c \<and> stride c' = stride c
     \<and> length (buffer c') = length (buffer c)"

subsection \<open>Facts about \<open>draw_point\<close> that the loops' termination proofs need\<close>

lemma length_mapped [simp]: "length (mapped col) = 4"
  by (simp add: mapped_def)

lemma u16_bound: "unat (x :: u16) \<le> 65535"
  using unsigned_less [of x, where 'a = nat] by simp

lemma u32_bound: "unat (x :: u32) \<le> 4294967295"
  using unsigned_less [of x, where 'a = nat] by simp

lemma unat_succ_less:
  assumes "(y :: u16) < h"
  shows "unat (y + 1) = Suc (unat y)"
proof -
  from assms have "unat y < unat h" by (simp add: word_less_nat_alt)
  then have "unat y + unat (1 :: u16) < 2 ^ LENGTH(16)"
    using u16_bound [of h] by simp
  then have "unat (y + 1) = unat y + unat (1 :: u16)"
    by (simp only: unat_add_lem)
  then show ?thesis by simp
qed

lemma draw_point_Inr:
  assumes "draw_point c x y col = Inr c'"
  shows "unat (byte_idx c x y) + 4 \<le> length (buffer c)"
    and "c' = c\<lparr>buffer := take (unat (byte_idx c x y)) (buffer c) @ mapped col
              @ drop (unat (byte_idx c x y) + 4) (buffer c)\<rparr>"
  using assms
  by (auto simp: draw_point_def memcpy_def split: if_splits)

lemma draw_point_same_shape:
  assumes "draw_point c x y col = Inr c'"
  shows "same_shape c c'"
  using draw_point_Inr [OF assms] by (simp add: same_shape_def)

lemma draw_point_height: "draw_point c x y col = Inr c' \<Longrightarrow> height c' = height c"
  by (drule draw_point_same_shape) (simp add: same_shape_def)

lemma draw_point_width: "draw_point c x y col = Inr c' \<Longrightarrow> width c' = width c"
  by (drule draw_point_same_shape) (simp add: same_shape_def)

subsection \<open>\<^verbatim>\<open>rendering_fill\<close>\<close>

text \<open>
  The inner loop \<^verbatim>\<open>for (uint16_t y = 0; y < c->height; y++) draw_point(c, x, y, color)\<close>,
  entered at \<open>y\<close>, and the outer loop over \<open>x\<close>.
\<close>

function rendering_fill_y :: "canvas \<Rightarrow> u16 \<Rightarrow> u16 \<Rightarrow> color \<Rightarrow> abort + canvas" where
  "rendering_fill_y c x y col =
     (if y < height c
      then (case draw_point c x y col of
              Inl e \<Rightarrow> Inl e
            | Inr c' \<Rightarrow> rendering_fill_y c' x (y + 1) col)
      else Inr c)"
  by pat_completeness auto
termination
  by (relation "measure (\<lambda>(c, x, y, col). unat (height c) - unat y)")
    (auto simp: draw_point_height unat_succ_less word_less_nat_alt)

declare rendering_fill_y.simps [simp del]

lemma rendering_fill_y_width:
  assumes "rendering_fill_y c x y col = Inr c'"
  shows "width c' = width c"
  using assms
proof (induction c x y col rule: rendering_fill_y.induct)
  case (1 c x y col)
  show ?case
  proof (cases "y < height c")
    case False
    then show ?thesis using "1.prems" by (subst (asm) rendering_fill_y.simps) simp
  next
    case True
    from "1.prems" obtain c1 where d: "draw_point c x y col = Inr c1"
      and r: "rendering_fill_y c1 x (y + 1) col = Inr c'"
      by (subst (asm) rendering_fill_y.simps) (auto simp: True split: sum.splits)
    show ?thesis using "1.IH" [OF True d r] draw_point_width [OF d] by simp
  qed
qed

function rendering_fill_x :: "canvas \<Rightarrow> u16 \<Rightarrow> color \<Rightarrow> abort + canvas" where
  "rendering_fill_x c x col =
     (if x < width c
      then (case rendering_fill_y c x 0 col of
              Inl e \<Rightarrow> Inl e
            | Inr c' \<Rightarrow> rendering_fill_x c' (x + 1) col)
      else Inr c)"
  by pat_completeness auto
termination
  by (relation "measure (\<lambda>(c, x, col). unat (width c) - unat x)")
    (auto simp: rendering_fill_y_width unat_succ_less word_less_nat_alt)

declare rendering_fill_x.simps [simp del]

definition rendering_fill :: "canvas \<Rightarrow> color \<Rightarrow> abort + canvas" where
  "rendering_fill c col = rendering_fill_x c 0 col"

subsection \<open>\<^verbatim>\<open>rendering_draw_rect\<close>\<close>

text \<open>
  The inner loop \<^verbatim>\<open>for (x = rect->x; x < right_edge && x < c->width; x++)\<close> and the
  outer loop \<^verbatim>\<open>for (y = rect->y; y < bottom_edge && y < bottom_edge; y++)\<close>; the two
  edges are 16-bit sums and wrap.
\<close>

function rendering_draw_rect_x ::
  "canvas \<Rightarrow> u16 \<Rightarrow> u16 \<Rightarrow> u16 \<Rightarrow> color \<Rightarrow> abort + canvas" where
  "rendering_draw_rect_x c right_edge y x col =
     (if x < right_edge \<and> x < width c
      then (case draw_point c x y col of
              Inl e \<Rightarrow> Inl e
            | Inr c' \<Rightarrow> rendering_draw_rect_x c' right_edge y (x + 1) col)
      else Inr c)"
  by pat_completeness auto
termination
  by (relation "measure (\<lambda>(c, right_edge, y, x, col). unat right_edge - unat x)")
    (auto simp: unat_succ_less word_less_nat_alt)

declare rendering_draw_rect_x.simps [simp del]

function rendering_draw_rect_y ::
  "canvas \<Rightarrow> rect \<Rightarrow> u16 \<Rightarrow> u16 \<Rightarrow> u16 \<Rightarrow> color \<Rightarrow> abort + canvas" where
  "rendering_draw_rect_y c rect right_edge bottom_edge y col =
     (if y < bottom_edge \<and> y < bottom_edge
      then (case rendering_draw_rect_x c right_edge y (rect_x rect) col of
              Inl e \<Rightarrow> Inl e
            | Inr c' \<Rightarrow> rendering_draw_rect_y c' rect right_edge bottom_edge (y + 1) col)
      else Inr c)"
  by pat_completeness auto
termination
  by (relation "measure (\<lambda>(c, rect, right_edge, bottom_edge, y, col). unat bottom_edge - unat y)")
    (auto simp: unat_succ_less word_less_nat_alt)

declare rendering_draw_rect_y.simps [simp del]

definition rendering_draw_rect :: "canvas \<Rightarrow> rect \<Rightarrow> color \<Rightarrow> abort + canvas" where
  "rendering_draw_rect c rect col =
     (let right_edge = rect_x rect + rect_w rect;
          bottom_edge = rect_y rect + rect_h rect
      in rendering_draw_rect_y c rect right_edge bottom_edge (rect_y rect) col)"

subsection \<open>\<^verbatim>\<open>rendering_draw_circle\<close>\<close>

text \<open>
  The upward span \<^verbatim>\<open>for (eff_x = ...; eff_x < circle->x; eff_x++)\<close> always ends:
  \<open>eff_x\<close> stays below \<open>circle->x\<close>.
\<close>

function span_up :: "canvas \<Rightarrow> u16 \<Rightarrow> u16 \<Rightarrow> u16 \<Rightarrow> color \<Rightarrow> abort + canvas" where
  "span_up c cx eff_y eff_x col =
     (if eff_x < cx
      then (case draw_point c eff_x eff_y col of
              Inl e \<Rightarrow> Inl e
            | Inr c' \<Rightarrow> span_up c' cx eff_y (eff_x + 1) col)
      else Inr c)"
  by pat_completeness auto
termination
  by (relation "measure (\<lambda>(c, cx, eff_y, eff_x, col). unat cx - unat eff_x)")
    (auto simp: unat_succ_less word_less_nat_alt)

declare span_up.simps [simp del]

text \<open>
  The downward span \<^verbatim>\<open>for (eff_x = ...; eff_x >= circle->x; eff_x--)\<close>. The counter is
  unsigned: below 0 it wraps to 65535, so the loop need not end, and the function is
  partial (\<open>None\<close>: it never returns).
\<close>

partial_function (option) span_down ::
  "canvas \<Rightarrow> u16 \<Rightarrow> u16 \<Rightarrow> u16 \<Rightarrow> color \<Rightarrow> (abort + canvas) option" where
  "span_down c cx eff_y eff_x col =
     (if cx \<le> eff_x
      then (case draw_point c eff_x eff_y col of
              Inl e \<Rightarrow> Some (Inl e)
            | Inr c' \<Rightarrow> span_down c' cx eff_y (eff_x - 1) col)
      else Some (Inr c))"

declare span_down.simps [code]

text \<open>
  The eight span loops of one pass through the \<^verbatim>\<open>while (x >= y)\<close> body, in the
  order of the source. Every \<open>eff_x\<close> and \<open>eff_y\<close> is a 16-bit sum or difference.
\<close>

definition circle_spans ::
  "canvas \<Rightarrow> circle \<Rightarrow> color \<Rightarrow> u16 \<Rightarrow> u16 \<Rightarrow> (abort + canvas) option" where
  "circle_spans c circle col x y =
     run_bind (span_down c (circle_x circle) (circle_y circle + y) (circle_x circle + x) col)
       (\<lambda>c.
     run_bind (span_down c (circle_x circle) (circle_y circle - y) (circle_x circle + x) col)
       (\<lambda>c.
     run_bind (Some (span_up c (circle_x circle) (circle_y circle - y) (circle_x circle - x) col))
       (\<lambda>c.
     run_bind (Some (span_up c (circle_x circle) (circle_y circle + y) (circle_x circle - x) col))
       (\<lambda>c.
     run_bind (span_down c (circle_x circle) (circle_y circle + x) (circle_x circle + y) col)
       (\<lambda>c.
     run_bind (span_down c (circle_x circle) (circle_y circle - x) (circle_x circle + y) col)
       (\<lambda>c.
     run_bind (Some (span_up c (circle_x circle) (circle_y circle - x) (circle_x circle - y) col))
       (\<lambda>c.
     Some (span_up c (circle_x circle) (circle_y circle + x) (circle_x circle - y) col))))))))"

text \<open>
  The \<^verbatim>\<open>while (x >= y)\<close> loop. \<open>x\<close> and \<open>y\<close> are \<^verbatim>\<open>uint16_t\<close>, \<open>t1\<close> and \<open>t2\<close> are
  \<^verbatim>\<open>int32_t\<close> (a 32-bit word compared as a signed number).
\<close>

partial_function (option) circle_loop ::
  "canvas \<Rightarrow> circle \<Rightarrow> color \<Rightarrow> u16 \<Rightarrow> u16 \<Rightarrow> u32 \<Rightarrow> (abort + canvas) option" where
  "circle_loop c circle col x y t1 =
     (if y \<le> x
      then (case circle_spans c circle col x y of
              None \<Rightarrow> None
            | Some (Inl e) \<Rightarrow> Some (Inl e)
            | Some (Inr c') \<Rightarrow>
                (let y' = y + 1;
                     t1' = t1 + ucast y';
                     t2 = t1' - ucast x
                 in if word_sle 0 t2
                    then circle_loop c' circle col (x - 1) y' t2
                    else circle_loop c' circle col x y' t1'))
      else Some (Inr c))"

declare circle_loop.simps [code]

definition rendering_draw_circle :: "canvas \<Rightarrow> circle \<Rightarrow> color \<Rightarrow> (abort + canvas) option" where
  "rendering_draw_circle c circle col =
     circle_loop c circle col (circle_r circle) 0 (ucast (circle_r circle div 16))"

subsection \<open>\<^verbatim>\<open>rendering_dump_bgra_to_rgba\<close>\<close>

text \<open>
  The file system is the environment: \<open>open_result\<close> is what \<^verbatim>\<open>open\<close> returns,
  \<open>write_result k\<close> is how many bytes the \<open>k\<close>-th call of \<^verbatim>\<open>write\<close> is ready to
  take (negative: the call fails), \<open>close_result\<close> is what \<^verbatim>\<open>close\<close> returns.
  \<open>sys_write\<close> is one call of \<^verbatim>\<open>write(fd, bytes, length bytes)\<close>: its return value
  (never more than the count it was given) and the bytes that reached the file.
\<close>

record fs_env =
  open_result :: int
  write_result :: "nat \<Rightarrow> int"
  close_result :: int

definition sys_write :: "int \<Rightarrow> u8 list \<Rightarrow> int \<times> u8 list" where
  "sys_write ready bytes =
     (if ready < 0 then (ready, [])
      else (min ready (int (length bytes)), take (nat ready) bytes))"

text \<open>
  The local array \<^verbatim>\<open>rgba_pixel\<close>:
  \<^verbatim>\<open>{ c->buffer[idx + 2], c->buffer[idx + 1], c->buffer[idx + 0], c->buffer[idx + 3] }\<close>.
\<close>

definition rgba_pixel :: "u8 list \<Rightarrow> nat \<Rightarrow> u8 list" where
  "rgba_pixel buf idx = [buf ! (idx + 2), buf ! (idx + 1), buf ! (idx + 0), buf ! (idx + 3)]"

text \<open>
  The loop \<^verbatim>\<open>while (written < sizeof(rgba_pixel))\<close> that resumes short writes. The state
  is the number of \<^verbatim>\<open>write\<close> calls made so far and the file's contents.
\<close>

partial_function (option) write_pixel ::
  "(nat \<Rightarrow> int) \<Rightarrow> u8 list \<Rightarrow> u64 \<Rightarrow> nat \<times> u8 list \<Rightarrow> (abort + nat \<times> u8 list) option" where
  "write_pixel wr px written st =
     (if written < 4
      then (case sys_write (wr (fst st)) (drop (unat written) px) of
              (result, bytes) \<Rightarrow>
                if result < 0 then Some (Inl Fatal)
                else write_pixel wr px (written + word_of_int result)
                       (Suc (fst st), snd st @ bytes))
      else Some (Inr st))"

declare write_pixel.simps [code]

text \<open>The loop \<^verbatim>\<open>for (idx = 0; idx < buffer_size; idx += c->stride)\<close>.\<close>

partial_function (option) dump_loop ::
  "canvas \<Rightarrow> (nat \<Rightarrow> int) \<Rightarrow> u64 \<Rightarrow> u64 \<Rightarrow> nat \<times> u8 list \<Rightarrow> (abort + nat \<times> u8 list) option" where
  "dump_loop c wr buffer_size idx st =
     (if idx < buffer_size
      then (if unat idx + 3 < length (buffer c)
            then (case write_pixel wr (rgba_pixel (buffer c) (unat idx)) 0 st of
                    None \<Rightarrow> None
                  | Some (Inl e) \<Rightarrow> Some (Inl e)
                  | Some (Inr st') \<Rightarrow> dump_loop c wr buffer_size (idx + ucast (stride c)) st')
            else Some (Inl OutOfBounds))
      else Some (Inr st))"

declare dump_loop.simps [code]

text \<open>The whole function; its result is the contents of the file it wrote.\<close>

definition rendering_dump_bgra_to_rgba :: "canvas \<Rightarrow> fs_env \<Rightarrow> (abort + u8 list) option" where
  "rendering_dump_bgra_to_rgba c env =
     (if stride c \<noteq> 4 then Some (Inl Fatal)
      else let buffer_size = canvas_buffer_size c
           in if open_result env < 0 then Some (Inl Fatal)
              else (case dump_loop c (write_result env) buffer_size 0 (0, []) of
                      None \<Rightarrow> None
                    | Some (Inl e) \<Rightarrow> Some (Inl e)
                    | Some (Inr st) \<Rightarrow>
                        if close_result env < 0 then Some (Inl Fatal)
                        else Some (Inr (snd st))))"

section \<open>Display backend\<close>

text \<open>
  \<^verbatim>\<open>struct buffer\<close> and the part of \<^verbatim>\<open>struct rendering_ctx\<close> that \<^verbatim>\<open>show\<close> uses. The
  kernel is the environment: \<open>flip_errno k\<close> is the \<^verbatim>\<open>errno\<close> of the \<open>k\<close>-th call of
  \<^verbatim>\<open>drmModePageFlip\<close> on the card, 0 when the call succeeds; \<open>flip_calls\<close> counts
  the calls made.
\<close>

record buffer =
  buf_id :: u32
  buf_stride :: u32
  buf_size :: u64
  buf_data :: "u8 list"

record rendering_ctx =
  front_buf_idx :: u64
  bufs :: "buffer list"
  flip_errno :: "nat \<Rightarrow> int"
  flip_calls :: nat

text \<open>The value of \<^verbatim>\<open>EBUSY\<close> in the Linux \<^verbatim>\<open>errno.h\<close>.\<close>

definition EBUSY :: int where
  "EBUSY = 16"

text \<open>
  One call of \<^verbatim>\<open>drmModePageFlip\<close>: its return value (0, or minus the \<^verbatim>\<open>errno\<close>),
  the \<^verbatim>\<open>errno\<close> it leaves, and the context with the call counted.
\<close>

definition drmModePageFlip :: "rendering_ctx \<Rightarrow> int \<times> int \<times> rendering_ctx" where
  "drmModePageFlip ctx =
     (- flip_errno ctx (flip_calls ctx), flip_errno ctx (flip_calls ctx),
      ctx\<lparr>flip_calls := Suc (flip_calls ctx)\<rparr>)"

text \<open>
  \<^verbatim>\<open>memcpy(back.data, c->buffer, back.size)\<close> into the back buffer \<open>bufs[1 ^ front_buf_idx]\<close>:
  the first \<open>back.size\<close> bytes of the mapping are replaced by those of the canvas.
\<close>

definition blit_back :: "rendering_ctx \<Rightarrow> canvas \<Rightarrow> abort + rendering_ctx" where
  "blit_back ctx c =
     (let bi = unat (1 XOR front_buf_idx ctx)
      in if \<not> bi < length (bufs ctx) then Inl OutOfBounds
         else let back = bufs ctx ! bi; n = unat (buf_size back)
              in if \<not> n \<le> length (buffer c) then Inl OutOfBounds
                 else (case memcpy (buf_data back) 0 (take n (buffer c)) of
                         Inl e \<Rightarrow> Inl e
                       | Inr d \<Rightarrow> Inr (ctx\<lparr>bufs := (bufs ctx)[bi := back\<lparr>buf_data := d\<rparr>]\<rparr>)))"

text \<open>
  \<^verbatim>\<open>drm_rendering_show\<close>, the \<^verbatim>\<open>rendering_show\<close> entry of the backend table. Its loop
  \<^verbatim>\<open>while (drmModePageFlip(...) != 0) { if (errno != EBUSY) FATAL_ERR(...); }\<close> need
  not end.
\<close>

partial_function (option) page_flip_retry :: "rendering_ctx \<Rightarrow> (abort + rendering_ctx) option" where
  "page_flip_retry ctx =
     (case drmModePageFlip ctx of
        (r, errno, ctx') \<Rightarrow>
          if r \<noteq> 0
          then (if errno \<noteq> EBUSY then Some (Inl Fatal) else page_flip_retry ctx')
          else Some (Inr ctx'))"

declare page_flip_retry.simps [code]

definition drm_rendering_show :: "rendering_ctx \<Rightarrow> canvas \<Rightarrow> (abort + rendering_ctx) option" where
  "drm_rendering_show ctx c =
     (case blit_back ctx c of
        Inl e \<Rightarrow> Some (Inl e)
      | Inr ctx1 \<Rightarrow>
          (case page_flip_retry ctx1 of
             None \<Rightarrow> None
           | Some (Inl e) \<Rightarrow> Some (Inl e)
           | Some (Inr ctx2) \<Rightarrow> Some (Inr (ctx2\<lparr>front_buf_idx := front_buf_idx ctx2 XOR 1\<rparr>))))"

text \<open>
  \<^verbatim>\<open>rendering_show\<close>, the copy of the routine that takes the context directly: one
  call of \<^verbatim>\<open>drmModePageFlip\<close>, and \<^verbatim>\<open>if (r != 0) FATAL_ERR(...)\<close>.
\<close>

definition rendering_show :: "rendering_ctx \<Rightarrow> canvas \<Rightarrow> (abort + rendering_ctx) option" where
  "rendering_show ctx c =
     (case blit_back ctx c of
        Inl e \<Rightarrow> Some (Inl e)
      | Inr ctx1 \<Rightarrow>
          (case drmModePageFlip ctx1 of
             (r, errno, ctx2) \<Rightarrow>
               if r \<noteq> 0 then Some (Inl Fatal)
               else Some (Inr (ctx2\<lparr>front_buf_idx := front_buf_idx ctx2 XOR 1\<rparr>))))"

section \<open>Pane store and rotation loop\<close>

datatype ui_failure = UI_OK | UI_DUPLICATE | UI_OOM | UI_NO_SUCH_PANE

text \<open>
  \<^verbatim>\<open>struct pane\<close>, \<^verbatim>\<open>struct pane_storage\<close> and \<^verbatim>\<open>struct ui_ctx\<close>. Of the array
  \<^verbatim>\<open>panes[MAX_PANES]\<close> the model keeps the slots in use, \<open>panes[0 .. count - 1]\<close>, as
  the list \<open>slots\<close>, so that \<open>count\<close> is its length. \<open>lock\<close> says whether the mutex
  is held. The backend table \<open>vt\<close> is a record of functions over the type-erased
  rendering context \<open>'r\<close>; the entries the pane store calls for their result are kept
  (\<^verbatim>\<open>rendering_init\<close> takes no argument: it is its outcome, a context or a fatal error).
\<close>

record pane =
  pane_name :: string
  pane_canvas :: canvas

record pane_storage =
  slots :: "pane list"
  lock :: bool

record 'r rendering_vtable =
  vt_rendering_init :: "abort + 'r"
  vt_rendering_show :: "'r \<Rightarrow> canvas \<Rightarrow> (abort + 'r) option"
  vt_canvas_init :: "'r \<Rightarrow> canvas option"

record 'r ui_ctx =
  vt :: "'r rendering_vtable"
  r_ctx :: 'r
  panes :: pane_storage
  cancellation_fd :: int

definition MAX_PANES :: nat where
  "MAX_PANES = 1024"

definition count :: "pane_storage \<Rightarrow> nat" where
  "count ps = length (slots ps)"

text \<open>
  The mutex, as the one thread of the model sees it: \<^verbatim>\<open>pthread_mutex_lock\<close> on a free
  mutex takes it and returns 0; on a mutex that is held it never returns, since nothing
  in a sequential run releases it. \<^verbatim>\<open>pthread_mutex_unlock\<close> releases it and returns 0.
\<close>

definition pthread_mutex_lock :: "pane_storage \<Rightarrow> (int \<times> pane_storage) option" where
  "pthread_mutex_lock ps = (if lock ps then None else Some (0, ps\<lparr>lock := True\<rparr>))"

definition pthread_mutex_unlock :: "pane_storage \<Rightarrow> int \<times> pane_storage" where
  "pthread_mutex_unlock ps = (0, ps\<lparr>lock := False\<rparr>)"

text \<open>
  \<^verbatim>\<open>ui_ctx_new\<close>. The environment: \<open>ctx_ok\<close> and \<open>strdup_ok\<close> say whether
  \<^verbatim>\<open>malloc\<close> and \<^verbatim>\<open>strdup("root")\<close> returned a block. The function never assigns
  \<^verbatim>\<open>ctx->vt\<close>: the field keeps what \<^verbatim>\<open>malloc\<close> left in the new block, which is
  \<open>junk_vt\<close>. The canvas of the root pane is not checked before \<^verbatim>\<open>rendering_fill\<close>
  writes through it: a \<^verbatim>\<open>NULL\<close> canvas is an invalid access.
\<close>

definition ui_ctx_new ::
  "bool \<Rightarrow> bool \<Rightarrow> 'r rendering_vtable \<Rightarrow> 'r rendering_vtable \<Rightarrow> (abort + 'r ui_ctx) option" where
  "ui_ctx_new ctx_ok strdup_ok junk_vt vtable =
     (if \<not> ctx_ok then Some (Inl Fatal)
      else (case vt_rendering_init vtable of
              Inl e \<Rightarrow> Some (Inl e)
            | Inr rc \<Rightarrow>
                (case pthread_mutex_lock \<lparr>slots = [], lock = False\<rparr> of
                   None \<Rightarrow> None
                 | Some (r, ps) \<Rightarrow>
                     if r \<noteq> 0 then Some (Inl Fatal)
                     else (let canvas = vt_canvas_init vtable rc
                           in if \<not> strdup_ok then Some (Inl Fatal)
                              else (case canvas of
                                      None \<Rightarrow> Some (Inl OutOfBounds)
                                    | Some cv \<Rightarrow>
                                        (case rendering_fill cv
                                           \<lparr>color_r = 0x22, color_g = 0x22, color_b = 0x88\<rparr> of
                                           Inl e \<Rightarrow> Some (Inl e)
                                         | Inr cv' \<Rightarrow>
                                             Some (Inr \<lparr>vt = junk_vt, r_ctx = rc,
                                               panes = snd (pthread_mutex_unlock
                                                 (ps\<lparr>slots :=
                                                   [\<lparr>pane_name = ''root'', pane_canvas = cv'\<rparr>]\<rparr>)),
                                               cancellation_fd = - 1\<rparr>)))))))"

text \<open>
  The scan of \<^verbatim>\<open>ui_pane_create\<close>:
  \<^verbatim>\<open>for (i = 0; i < idx; i++) if (strcmp(p->name, name) == 0) ... return UI_DUPLICATE\<close>.
\<close>

function name_scan :: "pane list \<Rightarrow> string \<Rightarrow> nat \<Rightarrow> nat \<Rightarrow> bool" where
  "name_scan ps name idx i =
     (if i < idx
      then (if pane_name (ps ! i) = name then True else name_scan ps name idx (Suc i))
      else False)"
  by pat_completeness auto
termination
  by (relation "measure (\<lambda>(ps, name, idx, i). idx - i)") auto

declare name_scan.simps [simp del]

text \<open>
  \<^verbatim>\<open>ui_pane_create\<close>. \<open>strdup_ok\<close> is the environment's: whether \<^verbatim>\<open>strdup(name)\<close>
  returned a copy.
\<close>

definition ui_pane_create ::
  "bool \<Rightarrow> 'r ui_ctx \<Rightarrow> string \<Rightarrow> color \<Rightarrow> (abort + ui_failure \<times> 'r ui_ctx) option" where
  "ui_pane_create strdup_ok ctx name fill =
     (case pthread_mutex_lock (panes ctx) of
        None \<Rightarrow> None
      | Some (r, ps) \<Rightarrow>
          (let idx = count ps
           in if name_scan (slots ps) name idx 0
              then Some (Inr (UI_DUPLICATE, ctx\<lparr>panes := snd (pthread_mutex_unlock ps)\<rparr>))
              else if \<not> idx < MAX_PANES then Some (Inl Fatal)
              else if \<not> strdup_ok then Some (Inr (UI_OOM, ctx\<lparr>panes := ps\<rparr>))
              else (case vt_canvas_init (vt ctx) (r_ctx ctx) of
                      None \<Rightarrow> Some (Inr (UI_OOM, ctx\<lparr>panes := ps\<rparr>))
                    | Some cv \<Rightarrow>
                        (case rendering_fill cv fill of
                           Inl e \<Rightarrow> Some (Inl e)
                         | Inr cv' \<Rightarrow>
                             (let ps' = ps\<lparr>slots := slots ps
                                          @ [\<lparr>pane_name = name, pane_canvas = cv'\<rparr>]\<rparr>
                              in Some (Inr (UI_OK,
                                   ctx\<lparr>panes := snd (pthread_mutex_unlock ps')\<rparr>)))))))"

text \<open>
  \<^verbatim>\<open>ui_pane_remove\<close>: the inner loop that moves every later slot down by one
  (\<open>p\<close> and \<open>j\<close> are the indices of \<^verbatim>\<open>p\<close> and \<^verbatim>\<open>q\<close>), and the scan for the name;
  \<^verbatim>\<open>count--\<close> drops the last slot in use.
\<close>

function shift_down :: "pane list \<Rightarrow> nat \<Rightarrow> nat \<Rightarrow> pane list" where
  "shift_down ps p j =
     (if j < length ps then shift_down (ps[p := ps ! j]) j (Suc j) else ps)"
  by pat_completeness auto
termination
  by (relation "measure (\<lambda>(ps, p, j). length ps - j)") auto

declare shift_down.simps [simp del]

function remove_scan :: "pane list \<Rightarrow> string \<Rightarrow> nat \<Rightarrow> pane list option" where
  "remove_scan ps name i =
     (if i < length ps
      then (if pane_name (ps ! i) \<noteq> name then remove_scan ps name (Suc i)
            else Some (butlast (shift_down ps i (Suc i))))
      else None)"
  by pat_completeness auto
termination
  by (relation "measure (\<lambda>(ps, name, i). length ps - i)") auto

declare remove_scan.simps [simp del]

definition ui_pane_remove ::
  "'r ui_ctx \<Rightarrow> string \<Rightarrow> (abort + ui_failure \<times> 'r ui_ctx) option" where
  "ui_pane_remove ctx name =
     (case pthread_mutex_lock (panes ctx) of
        None \<Rightarrow> None
      | Some (r, ps) \<Rightarrow>
          if r \<noteq> 0 then Some (Inl Fatal)
          else (case remove_scan (slots ps) name 0 of
                  Some sl \<Rightarrow>
                    Some (Inr (UI_OK, ctx\<lparr>panes := snd (pthread_mutex_unlock (ps\<lparr>slots := sl\<rparr>))\<rparr>))
                | None \<Rightarrow>
                    Some (Inr (UI_NO_SUCH_PANE, ctx\<lparr>panes := snd (pthread_mutex_unlock ps)\<rparr>))))"

text \<open>
  The lookup of \<^verbatim>\<open>ui_pane_draw_rect\<close> and \<^verbatim>\<open>ui_pane_draw_circle\<close>:
  \<^verbatim>\<open>for (i = 0; i < count; i++) { p = &panes[i]; if (strcmp(p->name, name) == 0) break; }\<close>.
  The pointer \<open>p\<close> is \<open>None\<close> for \<^verbatim>\<open>NULL\<close> and \<open>Some i\<close> for \<^verbatim>\<open>&panes[i]\<close>.
\<close>

function pane_scan :: "pane list \<Rightarrow> string \<Rightarrow> nat \<Rightarrow> nat option \<Rightarrow> nat option" where
  "pane_scan ps name i p =
     (if i < length ps
      then (if pane_name (ps ! i) = name then Some i else pane_scan ps name (Suc i) (Some i))
      else p)"
  by pat_completeness auto
termination
  by (relation "measure (\<lambda>(ps, name, i, p). length ps - i)") auto

declare pane_scan.simps [simp del]

definition ui_pane_draw_rect ::
  "'r ui_ctx \<Rightarrow> string \<Rightarrow> rect \<Rightarrow> color \<Rightarrow> (abort + ui_failure \<times> 'r ui_ctx) option" where
  "ui_pane_draw_rect ctx name rect c =
     (case pthread_mutex_lock (panes ctx) of
        None \<Rightarrow> None
      | Some (r, ps) \<Rightarrow>
          if r \<noteq> 0 then Some (Inl Fatal)
          else (case pane_scan (slots ps) name 0 None of
                  None \<Rightarrow> Some (Inr (UI_NO_SUCH_PANE, ctx\<lparr>panes := ps\<rparr>))
                | Some i \<Rightarrow>
                    (case rendering_draw_rect (pane_canvas (slots ps ! i)) rect c of
                       Inl e \<Rightarrow> Some (Inl e)
                     | Inr cv \<Rightarrow>
                         (let ps' = ps\<lparr>slots := (slots ps)[i := (slots ps ! i)\<lparr>pane_canvas := cv\<rparr>]\<rparr>
                          in Some (Inr (UI_OK,
                               ctx\<lparr>panes := snd (pthread_mutex_unlock ps')\<rparr>))))))"

definition ui_pane_draw_circle ::
  "'r ui_ctx \<Rightarrow> string \<Rightarrow> circle \<Rightarrow> color \<Rightarrow> (abort + ui_failure \<times> 'r ui_ctx) option" where
  "ui_pane_draw_circle ctx name circle c =
     (case pthread_mutex_lock (panes ctx) of
        None \<Rightarrow> None
      | Some (r, ps) \<Rightarrow>
          if r \<noteq> 0 then Some (Inl Fatal)
          else (case pane_scan (slots ps) name 0 None of
                  None \<Rightarrow> Some (Inr (UI_NO_SUCH_PANE, ctx\<lparr>panes := ps\<rparr>))
                | Some i \<Rightarrow>
                    (case rendering_draw_circle (pane_canvas (slots ps ! i)) circle c of
                       None \<Rightarrow> None
                     | Some (Inl e) \<Rightarrow> Some (Inl e)
                     | Some (Inr cv) \<Rightarrow>
                         (let ps' = ps\<lparr>slots := (slots ps)[i := (slots ps ! i)\<lparr>pane_canvas := cv\<rparr>]\<rparr>
                          in Some (Inr (UI_OK,
                               ctx\<lparr>panes := snd (pthread_mutex_unlock ps')\<rparr>))))))"




subsection \<open>A backend double and the initial pane store\<close>

text \<open>
  A backend that touches no hardware: \<^verbatim>\<open>rendering_init\<close> returns at once,
  \<^verbatim>\<open>rendering_show\<close> returns without effect, \<^verbatim>\<open>canvas_init\<close> hands out 3 by 3 BGRA
  canvases from \<^verbatim>\<open>canvas_init_bgra\<close>. \<open>root_ctx\<close> is a context on this backend with
  the pane store as \<^verbatim>\<open>ui_ctx_new\<close> builds it (lemma \<open>ui_ctx_new_root\<close>): one pane
  \<^verbatim>\<open>"root"\<close>, filled with the background colour, the mutex free.
\<close>

definition stub_vt :: "unit rendering_vtable" where
  "stub_vt = \<lparr>vt_rendering_init = Inr (), vt_rendering_show = (\<lambda>r c. Some (Inr r)),
     vt_canvas_init = (\<lambda>r. canvas_init_bgra True (Some (\<lambda>k. 0)) 3 3)\<rparr>"

definition root_ctx :: "unit ui_ctx" where
  "root_ctx = \<lparr>vt = stub_vt, r_ctx = (),
     panes = \<lparr>slots = [\<lparr>pane_name = ''root'',
                 pane_canvas = \<lparr>width = 3, height = 3, stride = 4,
                   buffer = [0x88, 0x22, 0x22, 0xFF, 0x88, 0x22, 0x22, 0xFF, 0x88, 0x22, 0x22, 0xFF,
                             0x88, 0x22, 0x22, 0xFF, 0x88, 0x22, 0x22, 0xFF, 0x88, 0x22, 0x22, 0xFF,
                             0x88, 0x22, 0x22, 0xFF, 0x88, 0x22, 0x22, 0xFF, 0x88, 0x22, 0x22, 0xFF]\<rparr>\<rparr>],
               lock = False\<rparr>,
     cancellation_fd = - 1\<rparr>"

text \<open>
  A display context whose first page flip reports \<^verbatim>\<open>EBUSY\<close> and whose later ones
  succeed, with two 4-byte buffers, and a canvas of one pixel.
\<close>

definition busy_once_ctx :: rendering_ctx where
  "busy_once_ctx = \<lparr>front_buf_idx = 0,
     bufs = [\<lparr>buf_id = 1, buf_stride = 4, buf_size = 4, buf_data = [0, 0, 0, 0]\<rparr>,
             \<lparr>buf_id = 2, buf_stride = 4, buf_size = 4, buf_data = [0, 0, 0, 0]\<rparr>],
     flip_errno = (\<lambda>k. if k = 0 then EBUSY else 0), flip_calls = 0\<rparr>"

definition one_pixel :: canvas where
  "one_pixel = \<lparr>width = 1, height = 1, stride = 4, buffer = [3, 2, 1, 0xFF]\<rparr>"

text \<open>
  A circle that lies fully inside a canvas: \<open>x - r \<ge> 0\<close>, \<open>y - r \<ge> 0\<close>, \<open>x + r < width\<close>,
  \<open>y + r < height\<close>, over the integers.
\<close>

definition fully_inside :: "canvas \<Rightarrow> circle \<Rightarrow> bool" where
  "fully_inside c circle \<longleftrightarrow>
     unat (circle_r circle) \<le> unat (circle_x circle)
     \<and> unat (circle_r circle) \<le> unat (circle_y circle)
     \<and> unat (circle_x circle) + unat (circle_r circle) < unat (width c)
     \<and> unat (circle_y circle) + unat (circle_r circle) < unat (height c)"

text \<open>
  A blank 3 by 3 canvas, and a blank canvas of 65535 by 2 pixels; both are what
  \<^verbatim>\<open>canvas_init_bgra\<close> builds on zeroed memory.
\<close>

definition blank3 :: canvas where
  "blank3 = \<lparr>width = 3, height = 3, stride = 4,
     buffer = [0, 0, 0, 0, 0, 0, 0, 0, 0, 0, 0, 0,
               0, 0, 0, 0, 0, 0, 0, 0, 0, 0, 0, 0,
               0, 0, 0, 0, 0, 0, 0, 0, 0, 0, 0, 0]\<rparr>"

definition wide_canvas :: canvas where
  "wide_canvas = \<lparr>width = 65535, height = 2, stride = 4, buffer = replicate 524280 0\<rparr>"

section \<open>Properties of the rasterizer\<close>

subsection \<open>Offsets do not wrap\<close>

text \<open>
  The 64-bit products of \<^verbatim>\<open>draw_point\<close> and \<^verbatim>\<open>canvas_buffer_size\<close> never wrap: the
  factors are 16, 16 and 32 bits wide.
\<close>

lemma unat_pixel_idx: "unat (pixel_idx c x y) = unat y * unat (width c) + unat x"
proof -
  have "unat y * unat (width c) \<le> 65535 * 65535"
    by (rule mult_le_mono) (rule u16_bound)+
  then have b: "unat y * unat (width c) + unat x \<le> 65535 * 65535 + 65535"
    using u16_bound [of x] by linarith
  have "pixel_idx c x y = of_nat (unat y * unat (width c) + unat x)"
    by (simp add: pixel_idx_def)
  then have "unat (pixel_idx c x y) = (unat y * unat (width c) + unat x) mod 2 ^ 64"
    by (simp only: unat_of_nat) simp
  with b show ?thesis by simp
qed

lemma unat_byte_idx:
  "unat (byte_idx c x y) = (unat y * unat (width c) + unat x) * unat (stride c)"
proof -
  have "unat y * unat (width c) \<le> 65535 * 65535"
    by (rule mult_le_mono) (rule u16_bound)+
  then have "unat y * unat (width c) + unat x \<le> 65535 * 65535 + 65535"
    using u16_bound [of x] by linarith
  then have "(unat y * unat (width c) + unat x) * unat (stride c)
      \<le> (65535 * 65535 + 65535) * 4294967295"
    by (rule mult_le_mono) (rule u32_bound)
  then have b: "(unat y * unat (width c) + unat x) * unat (stride c) < 2 ^ 64"
    by simp
  have "byte_idx c x y = of_nat ((unat y * unat (width c) + unat x) * unat (stride c))"
    by (simp add: byte_idx_def pixel_idx_def)
  then have "unat (byte_idx c x y)
      = ((unat y * unat (width c) + unat x) * unat (stride c)) mod 2 ^ 64"
    by (simp only: unat_of_nat) simp
  with b show ?thesis by simp
qed

lemma unat_canvas_buffer_size:
  "unat (canvas_buffer_size c) = unat (width c) * unat (height c) * unat (stride c)"
proof -
  have "unat (width c) * unat (height c) \<le> 65535 * 65535"
    by (rule mult_le_mono) (rule u16_bound)+
  then have "unat (width c) * unat (height c) * unat (stride c)
      \<le> (65535 * 65535) * 4294967295"
    by (rule mult_le_mono) (rule u32_bound)
  then have b: "unat (width c) * unat (height c) * unat (stride c) < 2 ^ 64"
    by simp
  have "canvas_buffer_size c = of_nat (unat (width c) * unat (height c) * unat (stride c))"
    by (simp add: canvas_buffer_size_def)
  then have "unat (canvas_buffer_size c)
      = (unat (width c) * unat (height c) * unat (stride c)) mod 2 ^ 64"
    by (simp only: unat_of_nat) simp
  with b show ?thesis by simp
qed

lemma pixel_in_range:
  assumes "x < w" "y < h"
  shows "(y * w + x) * s + s \<le> w * h * (s::nat)"
proof -
  have "y * w + x + 1 \<le> y * w + w" using assms by simp
  also have "\<dots> = (y + 1) * w" by simp
  also have "\<dots> \<le> h * w" using assms by (intro mult_le_mono) simp_all
  finally have "(y * w + x + 1) * s \<le> (h * w) * s" by (rule mult_le_mono1)
  then show ?thesis by (simp add: algebra_simps)
qed

lemma canvas_init_bgra_shape:
  assumes "canvas_init_bgra ret_ok fresh w h = Some c"
  shows "width c = w \<and> height c = h \<and> stride c = 4
    \<and> length (buffer c) = unat (canvas_buffer_size c)"
  using assms
  by (auto simp: canvas_init_bgra_def Let_def canvas_buffer_size_def
      split: if_splits option.splits)

text \<open>
  Claim C10. On a canvas with stride 4 whose buffer holds \<^verbatim>\<open>canvas_buffer_size\<close> bytes
  (what \<^verbatim>\<open>canvas_init_bgra\<close> builds), for \<open>x < width\<close> and \<open>y < height\<close> the byte offset
  \<^verbatim>\<open>draw_point\<close> computes is \<open>(y * width + x) * 4\<close> without wrap-around, the four bytes
  written from there lie inside the buffer, and \<^verbatim>\<open>draw_point\<close> returns a canvas.
\<close>

theorem draw_point_in_bounds:
  assumes "stride c = 4"
    and "length (buffer c) = unat (canvas_buffer_size c)"
    and "x < width c" and "y < height c"
  shows "unat (byte_idx c x y) = (unat y * unat (width c) + unat x) * 4
    \<and> unat (byte_idx c x y) + 4 \<le> length (buffer c)
    \<and> (\<exists>c'. draw_point c x y col = Inr c')"
proof -
  have s: "unat (stride c) = 4" using assms(1) by simp
  have "(unat y * unat (width c) + unat x) * 4 + 4 \<le> unat (width c) * unat (height c) * 4"
    using assms(3,4) by (intro pixel_in_range) (simp_all add: word_less_nat_alt)
  then have "unat (byte_idx c x y) + 4 \<le> length (buffer c)"
    by (simp add: unat_byte_idx unat_canvas_buffer_size s assms(2))
  then show ?thesis
    by (simp add: draw_point_def memcpy_def unat_byte_idx s)
qed

theorem draw_point_in_bounds_witness:
  "\<exists>c. canvas_init_bgra True (Some (\<lambda>k. 0)) 3 2 = Some c
     \<and> unat (byte_idx c 2 1) = 20
     \<and> unat (byte_idx c 2 1) + 4 \<le> length (buffer c)
     \<and> (\<exists>c'. draw_point c 2 1 \<lparr>color_r = 1, color_g = 2, color_b = 3\<rparr> = Inr c')"
proof -
  obtain c where c: "canvas_init_bgra True (Some (\<lambda>k. 0)) 3 2 = Some c"
    by (simp add: canvas_init_bgra_def)
  note sh = canvas_init_bgra_shape [OF c]
  have "stride c = 4" "length (buffer c) = unat (canvas_buffer_size c)"
    "2 < width c" "1 < height c"
    using sh by simp_all
  from draw_point_in_bounds [OF this, of "\<lparr>color_r = 1, color_g = 2, color_b = 3\<rparr>"] c sh
  show ?thesis by simp
qed

subsection \<open>Filling a canvas\<close>

lemma same_shape_refl: "same_shape c c"
  by (simp add: same_shape_def)

lemma same_shape_trans: "same_shape a b \<Longrightarrow> same_shape b c \<Longrightarrow> same_shape a c"
  by (simp add: same_shape_def)






text \<open>
  A canvas whose pixels are at least 4 bytes apart and whose buffer holds exactly
  \<^verbatim>\<open>canvas_buffer_size\<close> bytes.
\<close>

definition canvas_ok :: "canvas \<Rightarrow> bool" where
  "canvas_ok c \<longleftrightarrow>
     4 \<le> unat (stride c) \<and> length (buffer c) = unat (canvas_buffer_size c)"

lemma canvas_ok_same_shape: "same_shape c c' \<Longrightarrow> canvas_ok c \<Longrightarrow> canvas_ok c'"
  by (simp add: canvas_ok_def same_shape_def canvas_buffer_size_def)

lemma draw_point_ok:
  assumes "canvas_ok c" "x < width c" "y < height c"
  shows "\<exists>c'. draw_point c x y col = Inr c'"
proof -
  have "(unat y * unat (width c) + unat x) * unat (stride c) + unat (stride c)
      \<le> unat (width c) * unat (height c) * unat (stride c)"
    using assms(2,3) by (intro pixel_in_range) (simp_all add: word_less_nat_alt)
  then have "unat (byte_idx c x y) + 4 \<le> length (buffer c)"
    using assms(1) by (simp add: unat_byte_idx unat_canvas_buffer_size canvas_ok_def)
  then show ?thesis
    by (simp add: draw_point_def memcpy_def)
qed






section \<open>Properties of the pane store\<close>

text \<open>Unfolding the model on concrete inputs.\<close>

lemmas eval_simps =
  pthread_mutex_lock_def pthread_mutex_unlock_def count_def MAX_PANES_def
  name_scan.simps pane_scan.simps remove_scan.simps shift_down.simps
  rendering_draw_rect_def rendering_draw_rect_y.simps rendering_draw_rect_x.simps
  rendering_fill_def rendering_fill_x.simps rendering_fill_y.simps
  draw_point_def memcpy_def byte_idx_def pixel_idx_def mapped_def
  canvas_init_bgra_def canvas_buffer_size_def

lemma ui_ctx_new_root:
  "ui_ctx_new True True junk_vt stub_vt = Some (Inr (root_ctx\<lparr>vt := junk_vt\<rparr>))"
  by (simp add: ui_ctx_new_def stub_vt_def root_ctx_def eval_simps upt_rec)

subsection \<open>Creating a pane under a name in use\<close>

lemma name_scan_iff:
  "idx \<le> length ps \<Longrightarrow>
     name_scan ps name idx i \<longleftrightarrow> (\<exists>j. i \<le> j \<and> j < idx \<and> pane_name (ps ! j) = name)"
proof (induction ps name idx i rule: name_scan.induct)
  case (1 ps name idx i)
  show ?case
  proof (cases "i < idx")
    case False
    then show ?thesis by (subst name_scan.simps) auto
  next
    case True
    show ?thesis
    proof (cases "pane_name (ps ! i) = name")
      case t: True
      then show ?thesis using True by (subst name_scan.simps) auto
    next
      case False
      have "name_scan ps name idx i = name_scan ps name idx (Suc i)"
        using True False by (subst name_scan.simps) simp
      also have "\<dots> \<longleftrightarrow> (\<exists>j. Suc i \<le> j \<and> j < idx \<and> pane_name (ps ! j) = name)"
        using "1.IH" [OF True False "1.prems"] .
      also have "\<dots> \<longleftrightarrow> (\<exists>j. i \<le> j \<and> j < idx \<and> pane_name (ps ! j) = name)"
        using False by (metis Suc_leD Suc_leI le_neq_implies_less)
      finally show ?thesis .
    qed
  qed
qed

lemma name_scan_mem:
  "name_scan ps name (length ps) 0 \<longleftrightarrow> name \<in> pane_name ` set ps"
proof
  assume "name_scan ps name (length ps) 0"
  then obtain j where "j < length ps" "pane_name (ps ! j) = name"
    by (auto simp: name_scan_iff)
  then show "name \<in> pane_name ` set ps"
    using nth_mem [of j ps] by (metis imageI)
next
  assume "name \<in> pane_name ` set ps"
  then obtain j where "j < length ps" "pane_name (ps ! j) = name"
    by (auto simp: in_set_conv_nth)
  then show "name_scan ps name (length ps) 0"
    by (auto simp: name_scan_iff)
qed

lemma distinct_filter_one:
  "distinct (map f xs) \<Longrightarrow> x \<in> set xs \<Longrightarrow> length (filter (\<lambda>q. f q = f x) xs) = 1"
proof (induction xs)
  case Nil
  then show ?case by simp
next
  case (Cons a xs)
  show ?case
  proof (cases "a = x")
    case True
    have "f x \<notin> f ` set xs" using Cons.prems(1) True by simp
    then have "filter (\<lambda>q. f q = f x) xs = []"
      by (simp add: filter_empty_conv) (metis imageI)
    then show ?thesis using True by simp
  next
    case False
    then have "x \<in> set xs" using Cons.prems(2) by simp
    moreover have "f a \<noteq> f x" using Cons.prems(1) \<open>x \<in> set xs\<close> by auto
    ultimately show ?thesis using Cons by simp
  qed
qed

text \<open>
  Claim C6. In a pane store whose mutex is free and whose names are unique (the store's
  invariant), creating a pane under a name \<open>p\<close> that a pane already has returns
  \<^verbatim>\<open>UI_DUPLICATE\<close> and leaves the whole context as it was: the same panes with the same
  canvases, the same count, the mutex free again; exactly one pane is named \<open>p\<close>. This
  holds whatever \<^verbatim>\<open>strdup\<close> and the backend would have done.
\<close>

theorem create_duplicate:
  assumes "\<not> lock (panes ctx)"
    and "p \<in> pane_name ` set (slots (panes ctx))"
    and "distinct (map pane_name (slots (panes ctx)))"
  shows "ui_pane_create strdup_ok ctx p fill = Some (Inr (UI_DUPLICATE, ctx))
    \<and> length (filter (\<lambda>q. pane_name q = p) (slots (panes ctx))) = 1"
proof -
  have "(panes ctx)\<lparr>lock := False\<rparr> = panes ctx" using assms(1) by simp
  then have "ui_pane_create strdup_ok ctx p fill = Some (Inr (UI_DUPLICATE, ctx))"
    using assms(1,2)
    by (simp add: ui_pane_create_def pthread_mutex_lock_def pthread_mutex_unlock_def
        count_def name_scan_mem)
  moreover from assms(2) obtain x where "x \<in> set (slots (panes ctx))" "p = pane_name x"
    by auto
  ultimately show ?thesis using distinct_filter_one [OF assms(3), of x] by simp
qed

text \<open>
  The witness: on the initial context a first \<^verbatim>\<open>create "p"\<close> succeeds, and a second one,
  with another colour, is refused and changes nothing.
\<close>

theorem create_duplicate_witness:
  "\<exists>c1. ui_pane_create True root_ctx ''p'' \<lparr>color_r = 1, color_g = 2, color_b = 3\<rparr>
           = Some (Inr (UI_OK, c1))
     \<and> map pane_name (slots (panes c1)) = [''root'', ''p'']
     \<and> ui_pane_create True c1 ''p'' \<lparr>color_r = 9, color_g = 9, color_b = 9\<rparr>
           = Some (Inr (UI_DUPLICATE, c1))
     \<and> length (filter (\<lambda>q. pane_name q = ''p'') (slots (panes c1))) = 1"
proof -
  define c1 where "c1 = root_ctx\<lparr>panes := \<lparr>slots = slots (panes root_ctx) @
      [\<lparr>pane_name = ''p'', pane_canvas = \<lparr>width = 3, height = 3, stride = 4,
         buffer = [3, 2, 1, 0xFF, 3, 2, 1, 0xFF, 3, 2, 1, 0xFF,
                   3, 2, 1, 0xFF, 3, 2, 1, 0xFF, 3, 2, 1, 0xFF,
                   3, 2, 1, 0xFF, 3, 2, 1, 0xFF, 3, 2, 1, 0xFF]\<rparr>\<rparr>], lock = False\<rparr>\<rparr>"
  have a: "ui_pane_create True root_ctx ''p'' \<lparr>color_r = 1, color_g = 2, color_b = 3\<rparr>
      = Some (Inr (UI_OK, c1))"
    by (simp add: c1_def ui_pane_create_def root_ctx_def stub_vt_def eval_simps upt_rec)
  have n: "map pane_name (slots (panes c1)) = [''root'', ''p'']"
    by (simp add: c1_def root_ctx_def)
  have h: "\<not> lock (panes c1)" "''p'' \<in> pane_name ` set (slots (panes c1))"
    "distinct (map pane_name (slots (panes c1)))"
    by (simp_all add: c1_def root_ctx_def)
  from create_duplicate [OF h, of True "\<lparr>color_r = 9, color_g = 9, color_b = 9\<rparr>"] a n
  show ?thesis by (intro exI [of _ c1]) simp
qed

subsection \<open>Drawing on a pane that does not exist\<close>

text \<open>
  The lookup when no pane has the name: on an empty store \<open>p\<close> stays \<^verbatim>\<open>NULL\<close>, on any
  other it ends on the last slot, and the draw goes to the last pane.
\<close>

lemma pane_scan_no_match:
  assumes "\<forall>j. i \<le> j \<and> j < length ps \<longrightarrow> pane_name (ps ! j) \<noteq> name"
  shows "pane_scan ps name i p = (if i < length ps then Some (length ps - 1) else p)"
  using assms
proof (induction ps name i p rule: pane_scan.induct)
  case (1 ps name i p)
  show ?case
  proof (cases "i < length ps")
    case False
    then show ?thesis by (subst pane_scan.simps) simp
  next
    case True
    have ne: "pane_name (ps ! i) \<noteq> name" using "1.prems" True by simp
    have "\<forall>j. Suc i \<le> j \<and> j < length ps \<longrightarrow> pane_name (ps ! j) \<noteq> name"
      using "1.prems" by simp
    from "1.IH" [OF True ne this]
    have "pane_scan ps name (Suc i) (Some i)
        = (if Suc i < length ps then Some (length ps - 1) else Some i)" .
    moreover have "\<not> Suc i < length ps \<Longrightarrow> i = length ps - 1" using True by simp
    ultimately show ?thesis
      using True ne by (subst pane_scan.simps) auto
  qed
qed

lemma pane_scan_missing:
  assumes "name \<notin> pane_name ` set ps"
  shows "pane_scan ps name 0 None = (if ps = [] then None else Some (length ps - 1))"
proof -
  have "\<forall>j. 0 \<le> j \<and> j < length ps \<longrightarrow> pane_name (ps ! j) \<noteq> name"
    using assms by (metis imageI nth_mem)
  from pane_scan_no_match [OF this, of None] show ?thesis by simp
qed

lemma draw_rect_missing_pane:
  assumes "\<not> lock (panes ctx)" and "name \<notin> pane_name ` set (slots (panes ctx))"
    and "slots (panes ctx) \<noteq> []"
    and "rendering_draw_rect (pane_canvas (last (slots (panes ctx)))) rect col = Inr cv"
  shows "ui_pane_draw_rect ctx name rect col
     = Some (Inr (UI_OK, ctx\<lparr>panes := \<lparr>slots = butlast (slots (panes ctx))
           @ [(last (slots (panes ctx)))\<lparr>pane_canvas := cv\<rparr>], lock = False\<rparr>\<rparr>))"
proof -
  let ?sl = "slots (panes ctx)"
  have l: "?sl ! (length ?sl - Suc 0) = last ?sl" using assms(3) by (simp add: last_conv_nth)
  have "?sl[length (butlast ?sl) := (last ?sl)\<lparr>pane_canvas := cv\<rparr>]
      = butlast ?sl @ [(last ?sl)\<lparr>pane_canvas := cv\<rparr>]"
    using assms(3) by (metis append_butlast_last_id list_update_length)
  then have u: "?sl[length ?sl - Suc 0 := (last ?sl)\<lparr>pane_canvas := cv\<rparr>]
      = butlast ?sl @ [(last ?sl)\<lparr>pane_canvas := cv\<rparr>]"
    by simp
  have p: "pane_scan ?sl name 0 None = Some (length ?sl - Suc 0)"
    using pane_scan_missing [OF assms(2)] assms(3) by simp
  show ?thesis
    using assms(1,4)
    by (simp add: ui_pane_draw_rect_def pthread_mutex_lock_def pthread_mutex_unlock_def
        Let_def p l u)
qed

text \<open>
  Claim C1 fails on the code. \<^verbatim>\<open>ui_pane_draw_rect\<close> and \<^verbatim>\<open>ui_pane_draw_circle\<close> leave
  the pointer \<open>p\<close> on the last slot they compared, so for a name no pane has they draw
  on the last pane and return \<^verbatim>\<open>UI_OK\<close>. Here the store is the initial one (only
  \<^verbatim>\<open>"root"\<close>) and the name is \<^verbatim>\<open>"x"\<close>: the rectangle paints pixel (0, 0) of the root
  pane's canvas, the circle of radius 1 around (1, 1) paints five of its pixels.
\<close>

theorem drawing_on_missing_pane:
  "''x'' \<notin> pane_name ` set (slots (panes root_ctx))
   \<and> ui_pane_draw_rect root_ctx ''x''
        \<lparr>rect_x = 0, rect_y = 0, rect_w = 1, rect_h = 1,
           rect_c = \<lparr>color_r = 1, color_g = 2, color_b = 3\<rparr>\<rparr>
        \<lparr>color_r = 1, color_g = 2, color_b = 3\<rparr>
     = Some (Inr (UI_OK, root_ctx\<lparr>panes :=
         \<lparr>slots = [\<lparr>pane_name = ''root'',
             pane_canvas = \<lparr>width = 3, height = 3, stride = 4,
               buffer = [3, 2, 1, 0xFF, 0x88, 0x22, 0x22, 0xFF, 0x88, 0x22, 0x22, 0xFF,
                         0x88, 0x22, 0x22, 0xFF, 0x88, 0x22, 0x22, 0xFF, 0x88, 0x22, 0x22, 0xFF,
                         0x88, 0x22, 0x22, 0xFF, 0x88, 0x22, 0x22, 0xFF, 0x88, 0x22, 0x22, 0xFF]\<rparr>\<rparr>],
           lock = False\<rparr>\<rparr>))
   \<and> ui_pane_draw_circle root_ctx ''x''
        \<lparr>circle_x = 1, circle_y = 1, circle_r = 1,
           circle_c = \<lparr>color_r = 1, color_g = 2, color_b = 3\<rparr>\<rparr>
        \<lparr>color_r = 1, color_g = 2, color_b = 3\<rparr>
     = Some (Inr (UI_OK, root_ctx\<lparr>panes :=
         \<lparr>slots = [\<lparr>pane_name = ''root'',
             pane_canvas = \<lparr>width = 3, height = 3, stride = 4,
               buffer = [0x88, 0x22, 0x22, 0xFF, 3, 2, 1, 0xFF, 0x88, 0x22, 0x22, 0xFF,
                         3, 2, 1, 0xFF, 3, 2, 1, 0xFF, 3, 2, 1, 0xFF,
                         0x88, 0x22, 0x22, 0xFF, 3, 2, 1, 0xFF, 0x88, 0x22, 0x22, 0xFF]\<rparr>\<rparr>],
           lock = False\<rparr>\<rparr>))"
  apply (intro conjI)
    apply (simp add: root_ctx_def)
   apply (simp add: ui_pane_draw_rect_def root_ctx_def eval_simps)
  apply (simp add: ui_pane_draw_circle_def root_ctx_def eval_simps rendering_draw_circle_def
      circle_loop.simps circle_spans_def run_bind_def span_down.simps span_up.simps word_sle_eq)
  done

subsection \<open>The mutex on the error returns\<close>

text \<open>
  For every store with a free mutex and room for a pane, \<^verbatim>\<open>ui_pane_create\<close> under a new
  name with \<^verbatim>\<open>strdup\<close> failing returns \<^verbatim>\<open>UI_OOM\<close> with the mutex held.
\<close>

lemma create_oom_keeps_lock:
  assumes "\<not> lock (panes ctx)" and "name \<notin> pane_name ` set (slots (panes ctx))"
    and "count (panes ctx) < MAX_PANES"
  shows "ui_pane_create False ctx name fill
     = Some (Inr (UI_OOM, ctx\<lparr>panes := (panes ctx)\<lparr>lock := True\<rparr>\<rparr>))"
  using assms
  by (simp add: ui_pane_create_def pthread_mutex_lock_def count_def name_scan_mem)

text \<open>
  Claim C2 fails on the code. \<^verbatim>\<open>ui_pane_create\<close> returns \<^verbatim>\<open>UI_OOM\<close> without unlocking:
  on the initial context, with \<^verbatim>\<open>strdup\<close> failing, it returns with the mutex held, and
  the next call on the store never returns. \<^verbatim>\<open>ui_pane_draw_rect\<close> returns
  \<^verbatim>\<open>UI_NO_SUCH_PANE\<close> without unlocking: once \<^verbatim>\<open>"root"\<close> is removed (which does unlock),
  drawing on the empty store returns with the mutex held.
\<close>

theorem lock_left_held:
  "ui_pane_create False root_ctx ''x'' \<lparr>color_r = 1, color_g = 2, color_b = 3\<rparr>
     = Some (Inr (UI_OOM, root_ctx\<lparr>panes := (panes root_ctx)\<lparr>lock := True\<rparr>\<rparr>))
   \<and> ui_pane_create True (root_ctx\<lparr>panes := (panes root_ctx)\<lparr>lock := True\<rparr>\<rparr>) ''y''
        \<lparr>color_r = 1, color_g = 2, color_b = 3\<rparr> = None
   \<and> ui_pane_remove root_ctx ''root''
     = Some (Inr (UI_OK, root_ctx\<lparr>panes := \<lparr>slots = [], lock = False\<rparr>\<rparr>))
   \<and> ui_pane_draw_rect (root_ctx\<lparr>panes := \<lparr>slots = [], lock = False\<rparr>\<rparr>) ''root''
        \<lparr>rect_x = 0, rect_y = 0, rect_w = 1, rect_h = 1,
           rect_c = \<lparr>color_r = 1, color_g = 2, color_b = 3\<rparr>\<rparr>
        \<lparr>color_r = 1, color_g = 2, color_b = 3\<rparr>
     = Some (Inr (UI_NO_SUCH_PANE, root_ctx\<lparr>panes := \<lparr>slots = [], lock = True\<rparr>\<rparr>))"
  apply (intro conjI)
     apply (simp add: ui_pane_create_def root_ctx_def eval_simps)
    apply (simp add: ui_pane_create_def root_ctx_def eval_simps)
   apply (simp add: ui_pane_remove_def root_ctx_def eval_simps)
  apply (simp add: ui_pane_draw_rect_def root_ctx_def eval_simps)
  done

section \<open>Properties of the display backend\<close>

subsection \<open>The retry loop of \<^verbatim>\<open>drm_rendering_show\<close>\<close>

lemma busy_shift:
  assumes "\<forall>j<Suc k. f (n + j) = (e :: int)"
  shows "\<forall>j<k. f (Suc n + j) = e"
proof (intro allI impI)
  fix j assume "j < k"
  then have "Suc j < Suc k" by simp
  with assms have "f (n + Suc j) = e" by blast
  then show "f (Suc n + j) = e" by simp
qed

lemma page_flip_retry_busy_then_ok:
  assumes "\<forall>j<k. flip_errno ctx (flip_calls ctx + j) = EBUSY"
    and "flip_errno ctx (flip_calls ctx + k) = 0"
  shows "page_flip_retry ctx = Some (Inr (ctx\<lparr>flip_calls := flip_calls ctx + Suc k\<rparr>))"
  using assms
proof (induction k arbitrary: ctx)
  case 0
  then show ?case
    by (subst page_flip_retry.simps) (simp add: drmModePageFlip_def)
next
  case (Suc k)
  let ?ctx' = "ctx\<lparr>flip_calls := Suc (flip_calls ctx)\<rparr>"
  have b: "flip_errno ctx (flip_calls ctx) = EBUSY" using Suc.prems(1) by force
  have "\<forall>j<k. flip_errno ?ctx' (flip_calls ?ctx' + j) = EBUSY"
    using busy_shift [OF Suc.prems(1)] by simp
  moreover have "flip_errno ?ctx' (flip_calls ?ctx' + k) = 0"
    using Suc.prems(2) by simp
  ultimately have "page_flip_retry ?ctx' = Some (Inr (?ctx'\<lparr>flip_calls := flip_calls ?ctx' + Suc k\<rparr>))"
    by (rule Suc.IH)
  then show ?case
    using b by (subst page_flip_retry.simps) (simp add: drmModePageFlip_def EBUSY_def)
qed

lemma page_flip_retry_busy_then_error:
  assumes "\<forall>j<k. flip_errno ctx (flip_calls ctx + j) = EBUSY"
    and "flip_errno ctx (flip_calls ctx + k) \<noteq> 0"
    and "flip_errno ctx (flip_calls ctx + k) \<noteq> EBUSY"
  shows "page_flip_retry ctx = Some (Inl Fatal)"
  using assms
proof (induction k arbitrary: ctx)
  case 0
  then show ?case
    by (subst page_flip_retry.simps) (simp add: drmModePageFlip_def)
next
  case (Suc k)
  let ?ctx' = "ctx\<lparr>flip_calls := Suc (flip_calls ctx)\<rparr>"
  have b: "flip_errno ctx (flip_calls ctx) = EBUSY" using Suc.prems(1) by force
  have "\<forall>j<k. flip_errno ?ctx' (flip_calls ?ctx' + j) = EBUSY"
    using busy_shift [OF Suc.prems(1)] by simp
  moreover have "flip_errno ?ctx' (flip_calls ?ctx' + k) \<noteq> 0"
    "flip_errno ?ctx' (flip_calls ?ctx' + k) \<noteq> EBUSY"
    using Suc.prems(2,3) by simp_all
  ultimately have "page_flip_retry ?ctx' = Some (Inl Fatal)"
    by (rule Suc.IH)
  then show ?case
    using b by (subst page_flip_retry.simps) (simp add: drmModePageFlip_def EBUSY_def)
qed

lemma page_flip_retry_returns:
  assumes "page_flip_retry ctx = Some r"
  shows "\<exists>j. flip_errno ctx (flip_calls ctx + j) \<noteq> EBUSY"
proof (rule page_flip_retry.raw_induct
    [where P = "\<lambda>ctx r. \<exists>j. flip_errno ctx (flip_calls ctx + j) \<noteq> EBUSY", OF _ assms])
  fix f ctx r
  assume IH: "\<And>x y. f x = Some y \<Longrightarrow> \<exists>j. flip_errno x (flip_calls x + j) \<noteq> EBUSY"
    and step: "(case drmModePageFlip ctx of
        (r, errno, ctx') \<Rightarrow>
          if r \<noteq> 0 then if errno \<noteq> EBUSY then Some (Inl Fatal) else f ctx'
          else Some (Inr ctx')) = Some r"
  show "\<exists>j. flip_errno ctx (flip_calls ctx + j) \<noteq> EBUSY"
  proof (cases "flip_errno ctx (flip_calls ctx) = EBUSY")
    case False
    then have "flip_errno ctx (flip_calls ctx + 0) \<noteq> EBUSY" by simp
    then show ?thesis ..
  next
    case True
    let ?ctx' = "ctx\<lparr>flip_calls := Suc (flip_calls ctx)\<rparr>"
    from step True have "f ?ctx' = Some r"
      by (simp add: drmModePageFlip_def EBUSY_def)
    from IH [OF this] obtain j where "flip_errno ?ctx' (flip_calls ?ctx' + j) \<noteq> EBUSY" ..
    then have "flip_errno ctx (flip_calls ctx + Suc j) \<noteq> EBUSY" by simp
    then show ?thesis ..
  qed
qed

lemma page_flip_retry_busy_forever:
  assumes "\<forall>j. flip_errno ctx (flip_calls ctx + j) = EBUSY"
  shows "page_flip_retry ctx = None"
proof (cases "page_flip_retry ctx")
  case None
  then show ?thesis .
next
  case (Some r)
  from page_flip_retry_returns [OF this] assms show ?thesis by blast
qed

lemma blit_back_frame:
  assumes "blit_back ctx c = Inr ctx1"
  shows "front_buf_idx ctx1 = front_buf_idx ctx \<and> flip_errno ctx1 = flip_errno ctx
    \<and> flip_calls ctx1 = flip_calls ctx"
  using assms
  by (auto simp: blit_back_def Let_def split: if_splits sum.splits)


lemma page_flip_retry_fatal:
  assumes "page_flip_retry ctx = Some r"
  shows "r = Inl Fatal \<longrightarrow> (\<exists>j. flip_errno ctx (flip_calls ctx + j) \<noteq> 0
           \<and> flip_errno ctx (flip_calls ctx + j) \<noteq> EBUSY)"
proof (rule page_flip_retry.raw_induct
    [where P = "\<lambda>ctx r. r = Inl Fatal \<longrightarrow> (\<exists>j. flip_errno ctx (flip_calls ctx + j) \<noteq> 0
           \<and> flip_errno ctx (flip_calls ctx + j) \<noteq> EBUSY)", OF _ assms])
  fix f ctx r
  assume IH: "\<And>x y. f x = Some y \<Longrightarrow> y = Inl Fatal \<longrightarrow>
        (\<exists>j. flip_errno x (flip_calls x + j) \<noteq> 0 \<and> flip_errno x (flip_calls x + j) \<noteq> EBUSY)"
    and step: "(case drmModePageFlip ctx of
        (r, errno, ctx') \<Rightarrow>
          if r \<noteq> 0 then if errno \<noteq> EBUSY then Some (Inl Fatal) else f ctx'
          else Some (Inr ctx')) = Some r"
  show "r = Inl Fatal \<longrightarrow> (\<exists>j. flip_errno ctx (flip_calls ctx + j) \<noteq> 0
           \<and> flip_errno ctx (flip_calls ctx + j) \<noteq> EBUSY)"
  proof
    assume fatal: "r = Inl Fatal"
    show "\<exists>j. flip_errno ctx (flip_calls ctx + j) \<noteq> 0
           \<and> flip_errno ctx (flip_calls ctx + j) \<noteq> EBUSY"
    proof (cases "flip_errno ctx (flip_calls ctx) = EBUSY")
      case True
      let ?ctx' = "ctx\<lparr>flip_calls := Suc (flip_calls ctx)\<rparr>"
      from step True have "f ?ctx' = Some r"
        by (simp add: drmModePageFlip_def EBUSY_def)
      from IH [OF this] fatal obtain j where "flip_errno ?ctx' (flip_calls ?ctx' + j) \<noteq> 0
           \<and> flip_errno ?ctx' (flip_calls ?ctx' + j) \<noteq> EBUSY" by blast
      then have "flip_errno ctx (flip_calls ctx + Suc j) \<noteq> 0
           \<and> flip_errno ctx (flip_calls ctx + Suc j) \<noteq> EBUSY" by simp
      then show ?thesis ..
    next
      case False
      with step fatal have "flip_errno ctx (flip_calls ctx) \<noteq> 0"
        by (auto simp: drmModePageFlip_def split: if_splits)
      with False have "flip_errno ctx (flip_calls ctx + 0) \<noteq> 0
           \<and> flip_errno ctx (flip_calls ctx + 0) \<noteq> EBUSY" by simp
      then show ?thesis ..
    qed
  qed
qed

text \<open>
  \<^verbatim>\<open>drm_rendering_show\<close>, the \<^verbatim>\<open>rendering_show\<close> entry of the backend table, once the copy
  into the back buffer is in bounds and the first \<open>k\<close> flips report busy: a successful
  next flip makes it return with the front index toggled, after \<open>k + 1\<close> calls; any
  other error at the next flip is fatal; if every flip reports busy it never returns; and
  it is fatal only if some flip reports an error other than busy.
\<close>

theorem drm_rendering_show_retries:
  assumes "blit_back ctx c = Inr ctx1"
    and "\<forall>j<k. flip_errno ctx (flip_calls ctx + j) = EBUSY"
  shows "(flip_errno ctx (flip_calls ctx + k) = 0 \<longrightarrow>
            drm_rendering_show ctx c = Some (Inr (ctx1\<lparr>flip_calls := flip_calls ctx + Suc k,
              front_buf_idx := front_buf_idx ctx XOR 1\<rparr>)))
    \<and> (flip_errno ctx (flip_calls ctx + k) \<noteq> 0 \<and> flip_errno ctx (flip_calls ctx + k) \<noteq> EBUSY \<longrightarrow>
            drm_rendering_show ctx c = Some (Inl Fatal))
    \<and> ((\<forall>j. flip_errno ctx (flip_calls ctx + j) = EBUSY) \<longrightarrow> drm_rendering_show ctx c = None)
    \<and> (drm_rendering_show ctx c = Some (Inl Fatal) \<longrightarrow>
          (\<exists>j. flip_errno ctx (flip_calls ctx + j) \<noteq> 0
             \<and> flip_errno ctx (flip_calls ctx + j) \<noteq> EBUSY))"
proof -
  note fr = blit_back_frame [OF assms(1)]
  have busy: "\<forall>j<k. flip_errno ctx1 (flip_calls ctx1 + j) = EBUSY"
    using assms(2) fr by simp
  have ok: "drm_rendering_show ctx c = Some (Inr (ctx1\<lparr>flip_calls := flip_calls ctx + Suc k,
              front_buf_idx := front_buf_idx ctx XOR 1\<rparr>))"
    if "flip_errno ctx (flip_calls ctx + k) = 0"
  proof -
    have "flip_errno ctx1 (flip_calls ctx1 + k) = 0" using that fr by simp
    from page_flip_retry_busy_then_ok [OF busy this] show ?thesis
      using fr by (simp add: drm_rendering_show_def assms(1))
  qed
  have err: "drm_rendering_show ctx c = Some (Inl Fatal)"
    if "flip_errno ctx (flip_calls ctx + k) \<noteq> 0" "flip_errno ctx (flip_calls ctx + k) \<noteq> EBUSY"
  proof -
    have "flip_errno ctx1 (flip_calls ctx1 + k) \<noteq> 0" "flip_errno ctx1 (flip_calls ctx1 + k) \<noteq> EBUSY"
      using that fr by simp_all
    from page_flip_retry_busy_then_error [OF busy this] show ?thesis
      by (simp add: drm_rendering_show_def assms(1))
  qed
  have forever: "drm_rendering_show ctx c = None"
    if "\<forall>j. flip_errno ctx (flip_calls ctx + j) = EBUSY"
  proof -
    have "\<forall>j. flip_errno ctx1 (flip_calls ctx1 + j) = EBUSY" using that fr by simp
    from page_flip_retry_busy_forever [OF this] show ?thesis
      by (simp add: drm_rendering_show_def assms(1))
  qed
  have fatal: "\<exists>j. flip_errno ctx (flip_calls ctx + j) \<noteq> 0
             \<and> flip_errno ctx (flip_calls ctx + j) \<noteq> EBUSY"
    if "drm_rendering_show ctx c = Some (Inl Fatal)"
  proof -
    from that have "page_flip_retry ctx1 = Some (Inl Fatal)"
      by (auto simp: drm_rendering_show_def assms(1) split: option.splits sum.splits)
    from page_flip_retry_fatal [OF this] show ?thesis using fr by simp
  qed
  from ok err forever fatal show ?thesis by blast
qed

theorem drm_rendering_show_retries_witness:
  "drm_rendering_show busy_once_ctx one_pixel = Some (Inr
     (busy_once_ctx\<lparr>bufs := [\<lparr>buf_id = 1, buf_stride = 4, buf_size = 4, buf_data = [0, 0, 0, 0]\<rparr>,
             \<lparr>buf_id = 2, buf_stride = 4, buf_size = 4, buf_data = [3, 2, 1, 0xFF]\<rparr>],
        flip_calls := 2, front_buf_idx := 1\<rparr>))"
proof -
  have b: "blit_back busy_once_ctx one_pixel = Inr (busy_once_ctx\<lparr>bufs :=
      [\<lparr>buf_id = 1, buf_stride = 4, buf_size = 4, buf_data = [0, 0, 0, 0]\<rparr>,
       \<lparr>buf_id = 2, buf_stride = 4, buf_size = 4, buf_data = [3, 2, 1, 0xFF]\<rparr>]\<rparr>)"
    by (simp add: blit_back_def busy_once_ctx_def one_pixel_def memcpy_def)
  have h: "\<forall>j<1. flip_errno busy_once_ctx (flip_calls busy_once_ctx + j) = EBUSY"
    by (simp add: busy_once_ctx_def)
  from drm_rendering_show_retries [OF b h] show ?thesis
    by (simp add: busy_once_ctx_def)
qed

subsection \<open>\<^verbatim>\<open>rendering_show\<close> on a busy flip\<close>

text \<open>
  Claim C3 fails on \<^verbatim>\<open>rendering_show\<close>, the copy of the routine that takes the context
  directly: it calls \<^verbatim>\<open>drmModePageFlip\<close> once and treats every failure as fatal, busy
  included. On a context whose first flip is busy and whose second succeeds it
  terminates the process, where \<^verbatim>\<open>drm_rendering_show\<close> retries, returns, and toggles the
  front index.
\<close>

theorem rendering_show_fatal_on_busy:
  "rendering_show busy_once_ctx one_pixel = Some (Inl Fatal)
   \<and> drm_rendering_show busy_once_ctx one_pixel = Some (Inr
     (busy_once_ctx\<lparr>bufs := [\<lparr>buf_id = 1, buf_stride = 4, buf_size = 4, buf_data = [0, 0, 0, 0]\<rparr>,
             \<lparr>buf_id = 2, buf_stride = 4, buf_size = 4, buf_data = [3, 2, 1, 0xFF]\<rparr>],
        flip_calls := 2, front_buf_idx := 1\<rparr>))"
  by (simp add: rendering_show_def drm_rendering_show_def blit_back_def busy_once_ctx_def
      one_pixel_def memcpy_def drmModePageFlip_def EBUSY_def page_flip_retry.simps)

section \<open>Properties of the rotation loop\<close>





section \<open>Properties of the dump\<close>

text \<open>
  When every \<^verbatim>\<open>write\<close> takes at least one byte, the loop over short writes returns
  with the rest of the pixel appended to the file, whatever the sizes of the pieces.
\<close>

lemma write_pixel_all:
  assumes "\<forall>k. 0 < wr k" and "length px = 4" and "w \<le> 4"
  shows "\<exists>calls'. write_pixel wr px (word_of_nat w) (calls, out)
     = Some (Inr (calls', out @ drop w px))"
  using assms(3)
proof (induction "4 - w" arbitrary: w calls out rule: less_induct)
  case less
  show ?case
  proof (cases "w < 4")
    case False
    then have "w = 4" using less.prems by simp
    then show ?thesis
      using assms(2) by (subst write_pixel.simps) simp
  next
    case True
    define ready where "ready = wr calls"
    define result where "result = min ready (int (4 - w))"
    have rpos: "0 < ready" using assms(1) by (simp add: ready_def)
    have r1: "0 < result" "result \<le> int (4 - w)" using rpos True by (simp_all add: result_def)
    define m where "m = nat result"
    have m: "0 < m" "w + m \<le> 4" "result = int m" using r1 True by (simp_all add: m_def)
    have lt: "(word_of_nat w :: u64) < 4"
      using True by (simp add: word_less_nat_alt unat_of_nat)
    have uw: "unat (word_of_nat w :: u64) = w"
      using True by (simp add: unat_of_nat)
    have tk: "take (nat ready) (drop w px) = take m (drop w px)"
      using assms(2) rpos by (simp add: m_def result_def min_def)
    have sw: "sys_write (wr calls) (drop w px) = (result, take m (drop w px))"
      using rpos tk assms(2) by (simp add: sys_write_def ready_def [symmetric] result_def)
    have nx: "(word_of_nat w :: u64) + word_of_int result = word_of_nat (w + m)"
      using m(3) by simp
    have "4 - (w + m) < 4 - w" using m True by simp
    from less.hyps [OF this m(2), of "Suc calls" "out @ take m (drop w px)"]
    obtain calls' where "write_pixel wr px (word_of_nat (w + m))
        (Suc calls, out @ take m (drop w px))
      = Some (Inr (calls', (out @ take m (drop w px)) @ drop (w + m) px))" by blast
    moreover have "take m (drop w px) @ drop (w + m) px = drop w px"
      by (metis add.commute append_take_drop_id drop_drop)
    ultimately have "write_pixel wr px (word_of_nat (w + m))
        (Suc calls, out @ take m (drop w px)) = Some (Inr (calls', out @ drop w px))"
      by simp
    then show ?thesis
      using lt r1(1) by (subst write_pixel.simps) (simp add: uw sw nx)
  qed
qed


lemma dump_loop_all:
  assumes wr: "\<forall>k. 0 < wr k"
    and st: "stride c = 4"
    and len: "length (buffer c) = unat (canvas_buffer_size c)"
    and P: "P = unat (width c) * unat (height c)"
    and p: "p \<le> P" "unat idx = 4 * p"
  shows "\<exists>calls'. dump_loop c wr (canvas_buffer_size c) idx (calls, out)
     = Some (Inr (calls', out @ concat (map (\<lambda>q. rgba_pixel (buffer c) (4 * q)) [p..<P])))"
  using p
proof (induction "P - p" arbitrary: p idx calls out rule: less_induct)
  case less
  note up = less.prems(2)
  have sz: "unat (canvas_buffer_size c) = 4 * P"
    by (simp add: unat_canvas_buffer_size st P)
  have "unat (width c) * unat (height c) \<le> 65535 * 65535"
    by (rule mult_le_mono) (rule u16_bound)+
  then have Pb: "P \<le> 65535 * 65535" by (simp add: P)
  show ?case
  proof (cases "p < P")
    case False
    then have "p = P" using less.prems by simp
    then have "\<not> idx < canvas_buffer_size c"
      by (simp add: word_less_nat_alt up sz)
    then show ?thesis
      using \<open>p = P\<close> by (subst dump_loop.simps) simp
  next
    case True
    have lt: "idx < canvas_buffer_size c"
      using True by (simp add: word_less_nat_alt up sz)
    have inb: "unat idx + 3 < length (buffer c)"
      using True by (simp add: up len sz)
    have l4: "length (rgba_pixel (buffer c) (4 * p)) = 4" by (simp add: rgba_pixel_def)
    from write_pixel_all [OF wr l4, of 0 calls out]
    obtain calls1 where w: "write_pixel wr (rgba_pixel (buffer c) (4 * p)) 0 (calls, out)
        = Some (Inr (calls1, out @ rgba_pixel (buffer c) (4 * p)))"
      by auto
    have "unat idx + unat (4 :: u64) < 2 ^ LENGTH(64)"
      using True Pb by (simp add: up)
    then have "unat (idx + 4) = unat idx + unat (4 :: u64)"
      by (simp only: unat_add_lem)
    then have nx: "unat (idx + ucast (stride c)) = 4 * Suc p"
      by (simp add: st up)
    have body: "dump_loop c wr (canvas_buffer_size c) idx (calls, out)
        = dump_loop c wr (canvas_buffer_size c) (idx + ucast (stride c))
            (calls1, out @ rgba_pixel (buffer c) (4 * p))"
      using lt inb by (subst dump_loop.simps) (simp add: up w)
    have "P - Suc p < P - p" using True by simp
    from less.hyps [OF this _ nx, of calls1 "out @ rgba_pixel (buffer c) (4 * p)"] True
    obtain calls' where r: "dump_loop c wr (canvas_buffer_size c) (idx + ucast (stride c))
        (calls1, out @ rgba_pixel (buffer c) (4 * p))
      = Some (Inr (calls', (out @ rgba_pixel (buffer c) (4 * p))
          @ concat (map (\<lambda>q. rgba_pixel (buffer c) (4 * q)) [Suc p..<P])))"
      by auto
    have "[p..<P] = p # [Suc p..<P]" using True by (rule upt_conv_Cons)
    then have "concat (map (\<lambda>q. rgba_pixel (buffer c) (4 * q)) [p..<P])
        = rgba_pixel (buffer c) (4 * p)
          @ concat (map (\<lambda>q. rgba_pixel (buffer c) (4 * q)) [Suc p..<P])"
      by simp
    then show ?thesis
      using body r by simp
  qed
qed

lemma rgba_pixel_involution:
  assumes "length px = 4"
  shows "rgba_pixel (rgba_pixel px 0) 0 = px"
proof -
  from assms obtain a b c d where "px = [a, b, c, d]"
    by (auto simp: length_Suc_conv numeral_eq_Suc)
  then show ?thesis by (simp add: rgba_pixel_def)
qed

text \<open>
  Claim C8. For a canvas with stride 4 whose buffer holds \<^verbatim>\<open>canvas_buffer_size\<close> bytes,
  when the file opens, every \<^verbatim>\<open>write\<close> takes at least one byte and the file closes,
  \<^verbatim>\<open>rendering_dump_bgra_to_rgba\<close> returns and the file holds, for the pixels
  \<open>p = 0, 1, ...\<close> in order, the bytes \<open>input[2], input[1], input[0], input[3]\<close> of pixel
  \<open>p\<close> (the four bytes from offset \<open>4 * p\<close>). The permutation, \<open>rgba_pixel\<close> at offset 0
  of a 4-byte pixel, is an involution.
\<close>

theorem dump_bgra_to_rgba:
  assumes "stride c = 4"
    and "length (buffer c) = unat (canvas_buffer_size c)"
    and "0 \<le> open_result env" and "\<forall>k. 0 < write_result env k" and "0 \<le> close_result env"
  shows "rendering_dump_bgra_to_rgba c env
      = Some (Inr (concat (map
          (\<lambda>p. [buffer c ! (4 * p + 2), buffer c ! (4 * p + 1),
                buffer c ! (4 * p + 0), buffer c ! (4 * p + 3)])
          [0..<unat (width c) * unat (height c)])))
    \<and> (\<forall>px. length px = 4 \<longrightarrow> rgba_pixel (rgba_pixel px 0) 0 = px)"
proof -
  have "unat (0 :: u64) = 4 * 0" by simp
  from dump_loop_all [OF assms(4,1,2) refl _ this, of 0 "[]"]
  obtain calls' where "dump_loop c (write_result env) (canvas_buffer_size c) 0 (0, [])
     = Some (Inr (calls', concat (map (\<lambda>q. rgba_pixel (buffer c) (4 * q))
         [0..<unat (width c) * unat (height c)])))"
    by auto
  then have "rendering_dump_bgra_to_rgba c env
      = Some (Inr (concat (map (\<lambda>q. rgba_pixel (buffer c) (4 * q))
         [0..<unat (width c) * unat (height c)])))"
    using assms(1,3,5) by (simp add: rendering_dump_bgra_to_rgba_def)
  then have "rendering_dump_bgra_to_rgba c env
      = Some (Inr (concat (map
          (\<lambda>p. [buffer c ! (4 * p + 2), buffer c ! (4 * p + 1),
                buffer c ! (4 * p + 0), buffer c ! (4 * p + 3)])
          [0..<unat (width c) * unat (height c)])))"
    by (simp add: rgba_pixel_def)
  moreover have "\<forall>px. length px = 4 \<longrightarrow> rgba_pixel (rgba_pixel px 0) 0 = px"
    using rgba_pixel_involution by blast
  ultimately show ?thesis by blast
qed

theorem dump_bgra_to_rgba_witness:
  "rendering_dump_bgra_to_rgba
     \<lparr>width = 2, height = 1, stride = 4, buffer = [1, 2, 3, 4, 5, 6, 7, 8]\<rparr>
     \<lparr>open_result = 3, write_result = (\<lambda>k. 3), close_result = 0\<rparr>
     = Some (Inr [3, 2, 1, 4, 7, 6, 5, 8])
   \<and> rgba_pixel (rgba_pixel [1, 2, 3, 4] 0) 0 = [1, 2, 3, 4]"
  using dump_bgra_to_rgba [of "\<lparr>width = 2, height = 1, stride = 4, buffer = [1, 2, 3, 4, 5, 6, 7, 8]\<rparr>"
      "\<lparr>open_result = 3, write_result = (\<lambda>k. 3), close_result = 0\<rparr>"]
  by (simp add: canvas_buffer_size_def upt_rec)

section \<open>Properties of the circle\<close>

text \<open>
  With \<open>circle->x = 0\<close> the test \<^verbatim>\<open>eff_x >= circle->x\<close> of the downward span holds for
  every unsigned \<open>eff_x\<close>: the loop never ends by its test, so it never returns a canvas.
\<close>

lemma span_down_zero_no_return:
  assumes "span_down c cx eff_y eff_x col = Some r"
  shows "cx = 0 \<longrightarrow> (\<forall>c'. r \<noteq> Inr c')"
proof (rule span_down.raw_induct
    [where P = "\<lambda>c cx eff_y eff_x col r. cx = 0 \<longrightarrow> (\<forall>c'. r \<noteq> Inr c')", OF _ assms])
  fix f c and cx eff_y eff_x :: u16 and col r
  assume IH: "\<And>c cx eff_y eff_x col r. f c cx eff_y eff_x col = Some r
        \<Longrightarrow> cx = 0 \<longrightarrow> (\<forall>c'. r \<noteq> Inr c')"
    and step: "(if cx \<le> eff_x
        then case draw_point c eff_x eff_y col of
               Inl e \<Rightarrow> Some (Inl e)
             | Inr c' \<Rightarrow> f c' cx eff_y (eff_x - 1) col
        else Some (Inr c)) = Some r"
  show "cx = 0 \<longrightarrow> (\<forall>c'. r \<noteq> Inr c')"
  proof
    assume z: "cx = 0"
    show "\<forall>c'. r \<noteq> Inr c'"
    proof (cases "draw_point c eff_x eff_y col")
      case (Inl e)
      with step z show ?thesis by auto
    next
      case (Inr c1)
      with step z have "f c1 cx eff_y (eff_x - 1) col = Some r" by simp
      from IH [OF this] z show ?thesis by simp
    qed
  qed
qed

text \<open>
  On the 65535 by 2 canvas every write of the span in row 0 is in bounds, whatever
  \<open>eff_x\<close> is: the loop runs forever.
\<close>

lemma span_down_wide_diverges:
  assumes "span_down c cx eff_y eff_x col = Some r"
  shows "\<not> (cx = 0 \<and> eff_y = 0 \<and> width c = 65535 \<and> stride c = 4
          \<and> length (buffer c) = 524280)"
proof (rule span_down.raw_induct
    [where P = "\<lambda>c cx eff_y eff_x col r. \<not> (cx = 0 \<and> eff_y = 0 \<and> width c = 65535
          \<and> stride c = 4 \<and> length (buffer c) = 524280)", OF _ assms])
  fix f c and cx eff_y eff_x :: u16 and col r
  assume IH: "\<And>c cx eff_y eff_x col r. f c cx eff_y eff_x col = Some r
        \<Longrightarrow> \<not> (cx = 0 \<and> eff_y = 0 \<and> width c = 65535 \<and> stride c = 4
          \<and> length (buffer c) = 524280)"
    and step: "(if cx \<le> eff_x
        then case draw_point c eff_x eff_y col of
               Inl e \<Rightarrow> Some (Inl e)
             | Inr c' \<Rightarrow> f c' cx eff_y (eff_x - 1) col
        else Some (Inr c)) = Some r"
  show "\<not> (cx = 0 \<and> eff_y = 0 \<and> width c = 65535 \<and> stride c = 4
          \<and> length (buffer c) = 524280)"
  proof
    assume a: "cx = 0 \<and> eff_y = 0 \<and> width c = 65535 \<and> stride c = 4
          \<and> length (buffer c) = 524280"
    have "unat (byte_idx c eff_x 0) = unat eff_x * 4"
      using a by (simp add: unat_byte_idx)
    then have "unat (byte_idx c eff_x 0) + 4 \<le> length (buffer c)"
      using a u16_bound [of eff_x] by simp
    then obtain c1 where d: "draw_point c eff_x 0 col = Inr c1"
      by (simp add: draw_point_def memcpy_def)
    have sh: "same_shape c c1" by (rule draw_point_same_shape [OF d])
    from step a d have "f c1 cx eff_y (eff_x - 1) col = Some r" by simp
    from IH [OF this] sh a show False by (simp add: same_shape_def)
  qed
qed

lemma span_down_wide_None:
  "span_down wide_canvas 0 0 eff_x col = None"
proof (cases "span_down wide_canvas 0 0 eff_x col")
  case None
  then show ?thesis .
next
  case (Some r)
  from span_down_wide_diverges [OF this] show ?thesis by (simp add: wide_canvas_def)
qed

text \<open>
  Claim C5 fails on the code. The circle of radius 0 at (0, 0) lies fully inside the
  65535 by 2 canvas, and \<^verbatim>\<open>rendering_draw_circle\<close> never returns on it: the first span
  loop counts \<open>eff_x\<close> down from 0 through 65535 for ever. On no canvas does a circle with
  \<open>x = 0\<close> make \<^verbatim>\<open>rendering_draw_circle\<close> return a canvas: it runs for ever or writes out
  of bounds.
\<close>

theorem draw_circle_at_left_edge:
  "fully_inside wide_canvas \<lparr>circle_x = 0, circle_y = 0, circle_r = 0,
        circle_c = \<lparr>color_r = 1, color_g = 2, color_b = 3\<rparr>\<rparr>
   \<and> rendering_draw_circle wide_canvas
        \<lparr>circle_x = 0, circle_y = 0, circle_r = 0,
           circle_c = \<lparr>color_r = 1, color_g = 2, color_b = 3\<rparr>\<rparr>
        \<lparr>color_r = 1, color_g = 2, color_b = 3\<rparr> = None
   \<and> (\<forall>c y r cc col c'. rendering_draw_circle c
          \<lparr>circle_x = 0, circle_y = y, circle_r = r, circle_c = cc\<rparr> col \<noteq> Some (Inr c'))"
proof (intro conjI allI)
  show "fully_inside wide_canvas \<lparr>circle_x = 0, circle_y = 0, circle_r = 0,
        circle_c = \<lparr>color_r = 1, color_g = 2, color_b = 3\<rparr>\<rparr>"
    by (simp add: fully_inside_def wide_canvas_def)
next
  show "rendering_draw_circle wide_canvas
        \<lparr>circle_x = 0, circle_y = 0, circle_r = 0,
           circle_c = \<lparr>color_r = 1, color_g = 2, color_b = 3\<rparr>\<rparr>
        \<lparr>color_r = 1, color_g = 2, color_b = 3\<rparr> = None"
    by (simp add: rendering_draw_circle_def, subst circle_loop.simps)
      (simp add: circle_spans_def run_bind_def span_down_wide_None)
next
  fix c y r cc col c'
  let ?circle = "\<lparr>circle_x = 0, circle_y = y, circle_r = r, circle_c = cc\<rparr>"
  show "rendering_draw_circle c ?circle col \<noteq> Some (Inr c')"
  proof
    assume a: "rendering_draw_circle c ?circle col = Some (Inr c')"
    show False
    proof (cases "span_down c 0 (y + 0) (0 + r) col")
      case None
      with a show False
        by (simp add: rendering_draw_circle_def, subst (asm) circle_loop.simps)
          (simp add: circle_spans_def run_bind_def)
    next
      case (Some res)
      from span_down_zero_no_return [OF this] have n: "\<forall>c'. res \<noteq> Inr c'" by simp
      then obtain e where "res = Inl e" by (cases res) auto
      with a Some show False
        by (simp add: rendering_draw_circle_def, subst (asm) circle_loop.simps)
          (simp add: circle_spans_def run_bind_def)
    qed
  qed
qed

text \<open>
  Claim C4 fails on the code. For the circle of radius 0 at (1, 1) on the blank 3 by 3
  canvas, the first pass of the \<^verbatim>\<open>while (x >= y)\<close> loop paints the centre pixel only;
  then \<^verbatim>\<open>x--\<close> takes the unsigned \<open>x\<close> from 0 to 65535, the loop goes on, and its second
  pass (\<open>x = 65535\<close>, \<open>y = 1\<close>) paints the six pixels of rows 0 and 2; the third pass
  writes past the end of the buffer.
\<close>

theorem draw_circle_radius_zero:
  "fully_inside blank3 \<lparr>circle_x = 1, circle_y = 1, circle_r = 0,
        circle_c = \<lparr>color_r = 1, color_g = 2, color_b = 3\<rparr>\<rparr>
   \<and> circle_spans blank3
        \<lparr>circle_x = 1, circle_y = 1, circle_r = 0,
           circle_c = \<lparr>color_r = 1, color_g = 2, color_b = 3\<rparr>\<rparr>
        \<lparr>color_r = 1, color_g = 2, color_b = 3\<rparr> 0 0
     = Some (Inr \<lparr>width = 3, height = 3, stride = 4,
          buffer = [0, 0, 0, 0, 0, 0, 0, 0, 0, 0, 0, 0,
                    0, 0, 0, 0, 3, 2, 1, 0xFF, 0, 0, 0, 0,
                    0, 0, 0, 0, 0, 0, 0, 0, 0, 0, 0, 0]\<rparr>)
   \<and> circle_spans \<lparr>width = 3, height = 3, stride = 4,
          buffer = [0, 0, 0, 0, 0, 0, 0, 0, 0, 0, 0, 0,
                    0, 0, 0, 0, 3, 2, 1, 0xFF, 0, 0, 0, 0,
                    0, 0, 0, 0, 0, 0, 0, 0, 0, 0, 0, 0]\<rparr>
        \<lparr>circle_x = 1, circle_y = 1, circle_r = 0,
           circle_c = \<lparr>color_r = 1, color_g = 2, color_b = 3\<rparr>\<rparr>
        \<lparr>color_r = 1, color_g = 2, color_b = 3\<rparr> 65535 1
     = Some (Inr \<lparr>width = 3, height = 3, stride = 4,
          buffer = [3, 2, 1, 0xFF, 3, 2, 1, 0xFF, 3, 2, 1, 0xFF,
                    0, 0, 0, 0, 3, 2, 1, 0xFF, 0, 0, 0, 0,
                    3, 2, 1, 0xFF, 3, 2, 1, 0xFF, 3, 2, 1, 0xFF]\<rparr>)
   \<and> rendering_draw_circle blank3
        \<lparr>circle_x = 1, circle_y = 1, circle_r = 0,
           circle_c = \<lparr>color_r = 1, color_g = 2, color_b = 3\<rparr>\<rparr>
        \<lparr>color_r = 1, color_g = 2, color_b = 3\<rparr>
     = Some (Inl OutOfBounds)"
  apply (intro conjI)
     apply (simp add: fully_inside_def blank3_def)
    apply code_simp
   apply code_simp
  apply code_simp
  done

subsection \<open>Circles of positive radius\<close>

text \<open>
  For a radius of at least 1 the wrap-around above cannot happen: a circle fully inside
  the canvas has \<open>x \<ge> r \<ge> 1\<close>, every span stays on the canvas, \<open>x\<close> is at least 1 when it
  is decremented, and \<open>y\<close> grows by one per pass.
\<close>

lemma u16_add_no_wrap:
  assumes "unat (a :: u16) + unat b < 65536"
  shows "unat (a + b) = unat a + unat b"
proof -
  have "unat a + unat b < 2 ^ LENGTH(16)" using assms by simp
  then show ?thesis by (simp only: unat_add_lem)
qed

lemma u16_sub_no_wrap:
  assumes "unat (b :: u16) \<le> unat a"
  shows "unat (a - b) = unat a - unat b"
  using assms by (simp add: unat_sub word_le_nat_alt)

lemma span_up_ok:
  assumes "canvas_ok c" and "eff_y < height c" and "cx \<le> width c"
  shows "\<exists>c'. span_up c cx eff_y eff_x col = Inr c' \<and> same_shape c c'"
  using assms
proof (induction c cx eff_y eff_x col rule: span_up.induct)
  case (1 c cx eff_y eff_x col)
  show ?case
  proof (cases "eff_x < cx")
    case False
    then show ?thesis by (subst span_up.simps) (simp add: same_shape_refl)
  next
    case True
    then have "eff_x < width c" using "1.prems"(3) by simp
    from draw_point_ok [OF "1.prems"(1) this "1.prems"(2)]
    obtain c1 where d: "draw_point c eff_x eff_y col = Inr c1" by blast
    have sh1: "same_shape c c1" by (rule draw_point_same_shape [OF d])
    have "canvas_ok c1" "eff_y < height c1" "cx \<le> width c1"
      using canvas_ok_same_shape [OF sh1 "1.prems"(1)] sh1 "1.prems"(2,3)
      by (simp_all add: same_shape_def)
    from "1.IH" [OF True d this]
    obtain c' where "span_up c1 cx eff_y (eff_x + 1) col = Inr c'" "same_shape c1 c'"
      by blast
    then show ?thesis
      using True d same_shape_trans [OF sh1]
      by (subst span_up.simps) auto
  qed
qed

lemma span_down_ok:
  assumes "canvas_ok c" and "eff_y < height c" and "eff_x < width c" and "cx \<noteq> 0"
  shows "\<exists>c'. span_down c cx eff_y eff_x col = Some (Inr c') \<and> same_shape c c'"
  using assms(1,2,3)
proof (induction "unat eff_x" arbitrary: c eff_x rule: less_induct)
  case less
  show ?case
  proof (cases "cx \<le> eff_x")
    case False
    then show ?thesis by (subst span_down.simps) (simp add: same_shape_refl)
  next
    case True
    from draw_point_ok [OF less.prems(1,3,2)]
    obtain c1 where d: "draw_point c eff_x eff_y col = Inr c1" by blast
    have sh1: "same_shape c c1" by (rule draw_point_same_shape [OF d])
    have "unat cx \<noteq> 0" using assms(4) by (simp add: unat_eq_zero)
    then have pos: "1 \<le> unat eff_x" using True by (simp add: word_le_nat_alt)
    then have dec: "unat (eff_x - 1) = unat eff_x - 1"
      using u16_sub_no_wrap [of 1 eff_x] by simp
    have lt: "unat (eff_x - 1) < unat eff_x" using dec pos by simp
    have "canvas_ok c1" "eff_y < height c1"
      using canvas_ok_same_shape [OF sh1 less.prems(1)] sh1 less.prems(2)
      by (simp_all add: same_shape_def)
    moreover have "eff_x - 1 < width c1"
      using less.prems(3) sh1 lt by (simp add: same_shape_def word_less_nat_alt)
    ultimately obtain c' where "span_down c1 cx eff_y (eff_x - 1) col = Some (Inr c')"
      "same_shape c1 c'"
      using less.hyps [OF lt] by blast
    then show ?thesis
      using True d same_shape_trans [OF sh1]
      by (subst span_down.simps) auto
  qed
qed


lemma fully_inside_same_shape:
  "same_shape c c' \<Longrightarrow> fully_inside c circle \<Longrightarrow> fully_inside c' circle"
  by (simp add: fully_inside_def same_shape_def)

lemma span_down_step:
  assumes "canvas_ok c0" and "same_shape c0 c" and "unat eff_y < unat (height c0)"
    and "unat eff_x < unat (width c0)" and "cx \<noteq> 0"
  obtains c' where "span_down c cx eff_y eff_x col = Some (Inr c')" and "same_shape c0 c'"
proof -
  have "canvas_ok c" "eff_y < height c" "eff_x < width c"
    using canvas_ok_same_shape [OF assms(2,1)] assms(2,3,4)
    by (simp_all add: same_shape_def word_less_nat_alt)
  from span_down_ok [OF this assms(5), of col] obtain c'
    where "span_down c cx eff_y eff_x col = Some (Inr c')" "same_shape c c'" by blast
  then show ?thesis using that same_shape_trans [OF assms(2)] by blast
qed

lemma span_up_step:
  assumes "canvas_ok c0" and "same_shape c0 c" and "unat eff_y < unat (height c0)"
    and "unat cx \<le> unat (width c0)"
  obtains c' where "span_up c cx eff_y eff_x col = Inr c'" and "same_shape c0 c'"
proof -
  have "canvas_ok c" "eff_y < height c" "cx \<le> width c"
    using canvas_ok_same_shape [OF assms(2,1)] assms(2,3,4)
    by (simp_all add: same_shape_def word_less_nat_alt word_le_nat_alt)
  from span_up_ok [OF this, of eff_x col] obtain c'
    where "span_up c cx eff_y eff_x col = Inr c'" "same_shape c c'" by blast
  then show ?thesis using that same_shape_trans [OF assms(2)] by blast
qed

lemma circle_spans_ok:
  assumes ok: "canvas_ok c" and ins: "fully_inside c circle" and nz: "circle_r circle \<noteq> 0"
    and x: "unat x \<le> unat (circle_r circle)" and y: "unat y \<le> unat (circle_r circle)"
  shows "\<exists>c'. circle_spans c circle col x y = Some (Inr c') \<and> same_shape c c'"
proof -
  let ?cx = "circle_x circle" and ?cy = "circle_y circle"
  have r: "unat (circle_r circle) \<le> unat ?cx" "unat (circle_r circle) \<le> unat ?cy"
    "unat ?cx + unat (circle_r circle) < unat (width c)"
    "unat ?cy + unat (circle_r circle) < unat (height c)"
    using ins by (simp_all add: fully_inside_def)
  have wb: "unat (width c) \<le> 65535" "unat (height c) \<le> 65535"
    by (rule u16_bound)+
  have "unat (circle_r circle) \<noteq> 0" using nz by (simp add: unat_eq_zero)
  then have cxnz: "?cx \<noteq> 0" using r(1) by (auto simp: unat_eq_zero)
  have cxw: "unat ?cx \<le> unat (width c)" using r(3) by simp
  have yp: "unat (?cy + y) < unat (height c)"
    using u16_add_no_wrap [of ?cy y] r(4) y wb by simp
  have ym: "unat (?cy - y) < unat (height c)"
    using u16_sub_no_wrap [of y ?cy] r(2,4) y by simp
  have xp: "unat (?cy + x) < unat (height c)"
    using u16_add_no_wrap [of ?cy x] r(4) x wb by simp
  have xm: "unat (?cy - x) < unat (height c)"
    using u16_sub_no_wrap [of x ?cy] r(2,4) x by simp
  have sx: "unat (?cx + x) < unat (width c)"
    using u16_add_no_wrap [of ?cx x] r(3) x wb by simp
  have sy: "unat (?cx + y) < unat (width c)"
    using u16_add_no_wrap [of ?cx y] r(3) y wb by simp
  from span_down_step [OF ok same_shape_refl yp sx cxnz, of col]
  obtain c1 where s1: "span_down c ?cx (?cy + y) (?cx + x) col = Some (Inr c1)"
    and h1: "same_shape c c1" by blast
  from span_down_step [OF ok h1 ym sx cxnz, of col]
  obtain c2 where s2: "span_down c1 ?cx (?cy - y) (?cx + x) col = Some (Inr c2)"
    and h2: "same_shape c c2" by blast
  from span_up_step [OF ok h2 ym cxw, of "?cx - x" col]
  obtain c3 where s3: "span_up c2 ?cx (?cy - y) (?cx - x) col = Inr c3"
    and h3: "same_shape c c3" by blast
  from span_up_step [OF ok h3 yp cxw, of "?cx - x" col]
  obtain c4 where s4: "span_up c3 ?cx (?cy + y) (?cx - x) col = Inr c4"
    and h4: "same_shape c c4" by blast
  from span_down_step [OF ok h4 xp sy cxnz, of col]
  obtain c5 where s5: "span_down c4 ?cx (?cy + x) (?cx + y) col = Some (Inr c5)"
    and h5: "same_shape c c5" by blast
  from span_down_step [OF ok h5 xm sy cxnz, of col]
  obtain c6 where s6: "span_down c5 ?cx (?cy - x) (?cx + y) col = Some (Inr c6)"
    and h6: "same_shape c c6" by blast
  from span_up_step [OF ok h6 xm cxw, of "?cx - y" col]
  obtain c7 where s7: "span_up c6 ?cx (?cy - x) (?cx - y) col = Inr c7"
    and h7: "same_shape c c7" by blast
  from span_up_step [OF ok h7 xp cxw, of "?cx - y" col]
  obtain c8 where s8: "span_up c7 ?cx (?cy + x) (?cx - y) col = Inr c8"
    and h8: "same_shape c c8" by blast
  have "circle_spans c circle col x y = Some (Inr c8)"
    by (simp add: circle_spans_def run_bind_def s1 s2 s3 s4 s5 s6 s7 s8)
  with h8 show ?thesis by blast
qed

lemma circle_loop_ok:
  assumes ok: "canvas_ok c" and ins: "fully_inside c circle" and nz: "circle_r circle \<noteq> 0"
    and x: "unat x \<le> unat (circle_r circle)" and xy: "x \<noteq> 0 \<or> y \<noteq> 0"
  shows "\<exists>c'. circle_loop c circle col x y t1 = Some (Inr c') \<and> same_shape c c'"
  using ok ins x xy
proof (induction "Suc (unat x) - unat y" arbitrary: c x y t1 rule: less_induct)
  case less
  show ?case
  proof (cases "y \<le> x")
    case False
    then show ?thesis by (subst circle_loop.simps) (simp add: same_shape_refl)
  next
    case True
    then have yx: "unat y \<le> unat x" by (simp add: word_le_nat_alt)
    then have yr: "unat y \<le> unat (circle_r circle)" using less.prems(3) by simp
    from circle_spans_ok [OF less.prems(1,2) nz less.prems(3) yr, of col]
    obtain c1 where sp: "circle_spans c circle col x y = Some (Inr c1)"
      and sh1: "same_shape c c1" by blast
    have ok1: "canvas_ok c1" by (rule canvas_ok_same_shape [OF sh1 less.prems(1)])
    have ins1: "fully_inside c1 circle" by (rule fully_inside_same_shape [OF sh1 less.prems(2)])
    have "unat (circle_x circle) + unat (circle_r circle) < unat (width c)"
      using less.prems(2) by (simp add: fully_inside_def)
    then have rb: "unat (circle_r circle) < 65535" using u16_bound [of "width c"] by simp
    have y1: "unat (y + 1) = Suc (unat y)"
      using u16_add_no_wrap [of y 1] yr rb by simp
    then have y1nz: "y + 1 \<noteq> 0" by (metis Zero_not_Suc unat_0)
    have xpos: "1 \<le> unat x"
    proof (cases "y = 0")
      case True
      with less.prems(4) have "x \<noteq> 0" by simp
      then have "unat x \<noteq> 0" by (simp add: unat_eq_zero)
      then show ?thesis by simp
    next
      case False
      then have "unat y \<noteq> 0" by (simp add: unat_eq_zero)
      with yx show ?thesis by simp
    qed
    then have x1: "unat (x - 1) = unat x - 1"
      using u16_sub_no_wrap [of 1 x] by simp
    define t1' where "t1' = t1 + ucast (y + 1)"
    define t2 where "t2 = t1' - ucast x"
    have m1: "Suc (unat (x - 1)) - unat (y + 1) < Suc (unat x) - unat y"
      using x1 y1 yx xpos by simp
    have m2: "Suc (unat x) - unat (y + 1) < Suc (unat x) - unat y"
      using y1 yx by simp
    have xr: "unat (x - 1) \<le> unat (circle_r circle)" using x1 less.prems(3) by simp
    from less.hyps [OF m1 ok1 ins1 xr, of t2] y1nz
    obtain ca where a: "circle_loop c1 circle col (x - 1) (y + 1) t2 = Some (Inr ca)"
      and sha: "same_shape c1 ca" by blast
    from less.hyps [OF m2 ok1 ins1 less.prems(3), of t1'] y1nz
    obtain cb where b: "circle_loop c1 circle col x (y + 1) t1' = Some (Inr cb)"
      and shb: "same_shape c1 cb" by blast
    have "circle_loop c circle col x y t1
        = (if word_sle 0 t2 then Some (Inr ca) else Some (Inr cb))"
      using True
      by (subst circle_loop.simps) (simp add: sp Let_def t1'_def [symmetric] t2_def [symmetric] a b)
    then show ?thesis
      using same_shape_trans [OF sh1 sha] same_shape_trans [OF sh1 shb] by auto
  qed
qed

text \<open>
  On a canvas whose pixels are at least 4 bytes apart and whose buffer holds
  \<^verbatim>\<open>canvas_buffer_size\<close> bytes, \<^verbatim>\<open>rendering_draw_circle\<close> returns a canvas of the same shape
  for every circle of radius at least 1 that lies fully inside the canvas.
\<close>

theorem draw_circle_returns:
  assumes "4 \<le> unat (stride c)" and "length (buffer c) = unat (canvas_buffer_size c)"
    and "fully_inside c circle" and "circle_r circle \<noteq> 0"
  shows "\<exists>c'. rendering_draw_circle c circle col = Some (Inr c') \<and> same_shape c c'"
proof -
  have ok: "canvas_ok c" using assms(1,2) by (simp add: canvas_ok_def)
  show ?thesis
    unfolding rendering_draw_circle_def
    by (rule circle_loop_ok [OF ok assms(3,4)]) (simp_all add: assms(4))
qed

theorem draw_circle_returns_witness:
  "\<exists>c'. rendering_draw_circle blank3
          \<lparr>circle_x = 1, circle_y = 1, circle_r = 1,
             circle_c = \<lparr>color_r = 1, color_g = 2, color_b = 3\<rparr>\<rparr>
          \<lparr>color_r = 1, color_g = 2, color_b = 3\<rparr> = Some (Inr c')
     \<and> same_shape blank3 c'"
  using draw_circle_returns [of blank3
      "\<lparr>circle_x = 1, circle_y = 1, circle_r = 1,
         circle_c = \<lparr>color_r = 1, color_g = 2, color_b = 3\<rparr>\<rparr>"
      "\<lparr>color_r = 1, color_g = 2, color_b = 3\<rparr>"]
  by (simp add: blank3_def canvas_buffer_size_def fully_inside_def)

end
